theory Spec2Isabelle
  imports Complex_Main
begin

section \<open>Numbers, errors and arrays\<close>

text \<open>
  The module \<open>pyscf.pbc.tdscf.krhf_slow_supercell\<close> works on numpy arrays of floating-point
  (real or complex) numbers. A number is idealised as an exact complex number; \<open>None\<close> stands
  for a value that is not finite (nan, inf), which numpy produces with a warning and without
  raising when it takes the square root of a negative float or divides by zero. Arithmetic on
  a non-finite operand gives a non-finite result.
\<close>

type_synonym scalar = "complex option"

datatype error = NotImplementedError | IndexError | ValueError | ExternalError

definition abs_sq :: "scalar \<Rightarrow> real option" where
  \<comment> \<open>\<open>abs(v) ** 2\<close>\<close>
  "abs_sq c = map_option (\<lambda>z. (cmod z)\<^sup>2) c"

definition fadd :: "real option \<Rightarrow> real option \<Rightarrow> real option" where
  "fadd a b = (case (a, b) of (Some x, Some y) \<Rightarrow> Some (x + y) | _ \<Rightarrow> None)"

definition fsub :: "real option \<Rightarrow> real option \<Rightarrow> real option" where
  "fsub a b = (case (a, b) of (Some x, Some y) \<Rightarrow> Some (x - y) | _ \<Rightarrow> None)"

definition fdouble :: "real option \<Rightarrow> real option" where
  \<comment> \<open>\<open>2 * v\<close>\<close>
  "fdouble a = map_option (\<lambda>x. 2 * x) a"

definition fsqrt :: "real option \<Rightarrow> real option" where
  \<comment> \<open>\<open>v ** .5\<close> on a float: nan below zero\<close>
  "fsqrt a = (case a of Some x \<Rightarrow> (if x < 0 then None else Some (sqrt x)) | None \<Rightarrow> None)"

definition fdiv :: "scalar \<Rightarrow> real option \<Rightarrow> scalar" where
  \<comment> \<open>\<open>v / s\<close>: inf or nan when the divisor is zero\<close>
  "fdiv c s = (case (c, s) of
     (Some z, Some x) \<Rightarrow> (if x = 0 then None else Some (z / complex_of_real x))
   | _ \<Rightarrow> None)"

definition fsum :: "real option list \<Rightarrow> real option" where
  "fsum xs = foldr fadd xs (Some 0)"

text \<open>
  An array owns a buffer in the store; the buffer holds the entries in C (row-major) order.
  A view shares the buffer of the array it was taken from. The store is the list of the
  buffers allocated so far, an address being a position in it.
\<close>

type_synonym store = "scalar list list"

record ndarray =
  buf :: nat
  shape :: "nat list"

record tview =
  base :: ndarray
  axes :: "nat list"

definition alloc :: "store \<Rightarrow> scalar list \<Rightarrow> nat \<times> store" where
  "alloc st d = (length st, st @ [d])"

fun ravel :: "nat list \<Rightarrow> nat list \<Rightarrow> nat" where
  "ravel (d # ds) (i # is) = i * prod_list ds + ravel ds is"
| "ravel _ _ = 0"

definition valid_array :: "store \<Rightarrow> ndarray \<Rightarrow> bool" where
  "valid_array st a = (buf a < length st \<and> length (st ! buf a) = prod_list (shape a))"

definition view_shape :: "tview \<Rightarrow> nat list" where
  "view_shape v = map (\<lambda>j. shape (base v) ! j) (axes v)"

definition arg_of :: "nat list \<Rightarrow> nat \<Rightarrow> nat" where
  \<comment> \<open>the position of axis \<open>b\<close> in the permutation\<close>
  "arg_of p b = length (takeWhile (\<lambda>x. x \<noteq> b) p)"

definition view_item :: "store \<Rightarrow> tview \<Rightarrow> nat list \<Rightarrow> error + scalar" where
  \<comment> \<open>\<open>v[idx]\<close> for a full index into a transposed view\<close>
  "view_item st v idx =
     (if list_all2 (<) idx (view_shape v)
      then Inr (st ! buf (base v) !
             ravel (shape (base v))
               (map (\<lambda>b. idx ! arg_of (axes v) b) [0..<length (shape (base v))]))
      else Inl IndexError)"

definition np_reshape :: "ndarray \<Rightarrow> int list \<Rightarrow> error + ndarray" where
  \<comment> \<open>\<open>a.reshape(newshape)\<close> of a C-contiguous array: a view on the same buffer. One
      negative entry is the dimension numpy infers from the size.\<close>
  "np_reshape a newshape =
     (let size = int (prod_list (shape a));
          unknown = filter (\<lambda>d. d < 0) newshape;
          known = prod_list (filter (\<lambda>d. 0 \<le> d) newshape)
      in if 1 < length unknown then Inl ValueError
         else if unknown = [] then
           (if known = size then Inr (a\<lparr>shape := map nat newshape\<rparr>) else Inl ValueError)
         else if known = 0 \<or> size mod known \<noteq> 0 then Inl ValueError
         else Inr (a\<lparr>shape := map (\<lambda>d. if d < 0 then nat (size div known) else nat d) newshape\<rparr>))"

definition np_transpose :: "ndarray \<Rightarrow> nat list \<Rightarrow> tview" where
  "np_transpose a p = \<lparr>base = a, axes = p\<rparr>"

section \<open>The amplitude reshaper\<close>

definition inner_indices :: "nat list \<Rightarrow> (nat \<times> nat \<times> nat \<times> nat) list" where
  \<comment> \<open>the indices along axes 1 to 4 of a 6-axis shape\<close>
  "inner_indices sh =
     [(k1, k2, i, a). k1 \<leftarrow> [0..<sh ! 1], k2 \<leftarrow> [0..<sh ! 2], i \<leftarrow> [0..<sh ! 3], a \<leftarrow> [0..<sh ! 4]]"

definition axis_sum :: "scalar list \<Rightarrow> nat list \<Rightarrow> nat \<Rightarrow> nat \<Rightarrow> real option" where
  \<comment> \<open>entry \<open>[d, r]\<close> of \<open>(abs(vectors) ** 2).sum(axis=(1, 2, 3, 4))\<close>\<close>
  "axis_sum b sh d r =
     fsum (map (\<lambda>(k1, k2, i, a). abs_sq (b ! ravel sh [d, k1, k2, i, a, r])) (inner_indices sh))"

definition root_norms :: "scalar list \<Rightarrow> nat list \<Rightarrow> real option list" where
  \<comment> \<open>\<open>norm = 2 * (norm[0] - norm[1])\<close>, one entry per root\<close>
  "root_norms b sh = map (\<lambda>r. fdouble (fsub (axis_sum b sh 0 r) (axis_sum b sh 1 r))) [0..<sh ! 5]"

definition idiv_last :: "scalar list \<Rightarrow> nat \<Rightarrow> real option list \<Rightarrow> scalar list" where
  \<comment> \<open>\<open>vectors /= s\<close>: \<open>s\<close> is broadcast along the last axis, of length \<open>n\<close>\<close>
  "idiv_last b n s = map (\<lambda>j. fdiv (b ! j) (s ! (j mod n))) [0..<length b]"

definition vector_to_amplitudes ::
  "store \<Rightarrow> ndarray \<Rightarrow> nat list \<Rightarrow> nat list \<Rightarrow> (error + tview) \<times> store" where
  "vector_to_amplitudes st vectors nocc nmo =
     (if \<not> list_all (\<lambda>i. i = hd nocc) nocc then (Inl NotImplementedError, st)
      else let nk = length nocc in
        (case nocc of [] \<Rightarrow> (Inl IndexError, st)
         | nocc0 # _ \<Rightarrow>
           if \<not> list_all (\<lambda>i. i = hd nmo) nmo then (Inl NotImplementedError, st)
           else
             (case nmo of [] \<Rightarrow> (Inl IndexError, st)
              | nmo0 # _ \<Rightarrow>
                (case shape vectors of
                   _ # ncol # _ \<Rightarrow>
                     (case np_reshape vectors
                             [2, int nk, int nk, int nocc0, int nmo0 - int nocc0, int ncol] of
                        Inl e \<Rightarrow> (Inl e, st)
                      | Inr v \<Rightarrow>
                          let norm = root_norms (st ! buf v) (shape v);
                              st' = st[buf v := idiv_last (st ! buf v) (shape v ! 5) (map fsqrt norm)]
                          in (Inr (np_transpose v [5, 0, 1, 2, 3, 4]), st'))
                 | _ \<Rightarrow> (Inl IndexError, st)))))"

text \<open>
  The quantity \<open>2 * (sum |x|^2 - sum |y|^2)\<close> of root \<open>r\<close>, read from a returned amplitude
  tensor, whose axes are (root, x or y, k-point, k-point, occupied, virtual).
\<close>

definition scalar_of :: "error + scalar \<Rightarrow> scalar" where
  "scalar_of x = (case x of Inr c \<Rightarrow> c | Inl _ \<Rightarrow> None)"

definition amplitude_sum :: "store \<Rightarrow> tview \<Rightarrow> nat \<Rightarrow> nat \<Rightarrow> real option" where
  "amplitude_sum st v r d =
     fsum (map (\<lambda>(k1, k2, i, a). abs_sq (scalar_of (view_item st v [r, d, k1, k2, i, a])))
             (inner_indices (tl (view_shape v) @ [hd (view_shape v)])))"

definition amplitude_norm :: "store \<Rightarrow> tview \<Rightarrow> nat \<Rightarrow> real option" where
  "amplitude_norm st v r = fdouble (fsub (amplitude_sum st v r 0) (amplitude_sum st v r 1))"

section \<open>Tensors as values\<close>

text \<open>
  The integral blocks are never written to by this module; they are modelled as values:
  a shape and the entries in C order.
\<close>

record tensor =
  dims :: "nat list"
  entries :: "scalar list"

record matrix =
  nrows :: nat
  ncols :: nat
  elems :: "scalar list"

fun indices :: "nat list \<Rightarrow> nat list list" where
  \<comment> \<open>all the indices of a shape, in C order\<close>
  "indices [] = [[]]"
| "indices (d # ds) = [i # is. i \<leftarrow> [0..<d], is \<leftarrow> indices ds]"

definition tabulate :: "nat list \<Rightarrow> (nat list \<Rightarrow> scalar) \<Rightarrow> tensor" where
  "tabulate ds f = \<lparr>dims = ds, entries = map f (indices ds)\<rparr>"

definition item :: "tensor \<Rightarrow> nat list \<Rightarrow> scalar" where
  "item t idx = entries t ! ravel (dims t) idx"

definition nth_err :: "'a list \<Rightarrow> nat \<Rightarrow> error + 'a" where
  \<comment> \<open>\<open>xs[i]\<close> for a non-negative index\<close>
  "nth_err xs i = (if i < length xs then Inr (xs ! i) else Inl IndexError)"

fun sequence :: "(error + 'a) list \<Rightarrow> error + 'a list" where
  \<comment> \<open>a tuple built from a generator: the first element that raises ends it\<close>
  "sequence [] = Inr []"
| "sequence (x # xs) =
     (case x of Inl e \<Rightarrow> Inl e
      | Inr v \<Rightarrow> (case sequence xs of Inl e \<Rightarrow> Inl e | Inr vs \<Rightarrow> Inr (v # vs)))"

datatype pslice = UpTo nat | From nat

fun slice_start :: "pslice \<Rightarrow> nat" where
  "slice_start (UpTo n) = 0"
| "slice_start (From n) = n"

fun slice_len :: "pslice \<Rightarrow> nat \<Rightarrow> nat" where
  \<comment> \<open>the number of indices the slice selects on an axis of length \<open>d\<close>\<close>
  "slice_len (UpTo n) d = min n d"
| "slice_len (From n) d = d - n"

definition getitem :: "tensor \<Rightarrow> pslice list \<Rightarrow> tensor" where
  \<comment> \<open>\<open>t[slc]\<close> for a tuple of at most as many slices as axes; the other axes are kept whole\<close>
  "getitem t slc =
     (let sl = slc @ replicate (length (dims t) - length slc) (From 0)
      in tabulate (map2 slice_len sl (dims t))
           (\<lambda>idx. item t (map2 (+) (map slice_start sl) idx)))"

fun swap12 :: "'a list \<Rightarrow> 'a list" where
  "swap12 (a # b # c # rest) = a # c # b # rest"
| "swap12 xs = xs"

definition swapaxes12 :: "tensor \<Rightarrow> tensor" where
  \<comment> \<open>\<open>t.swapaxes(1, 2)\<close>\<close>
  "swapaxes12 t = tabulate (swap12 (dims t)) (\<lambda>idx. item t (swap12 idx))"

definition reshape :: "tensor \<Rightarrow> nat list \<Rightarrow> error + tensor" where
  "reshape t ds = (if prod_list ds = length (entries t) then Inr (t\<lparr>dims := ds\<rparr>) else Inl ValueError)"

definition zeros :: "int list \<Rightarrow> error + tensor" where
  \<comment> \<open>\<open>numpy.zeros(shape)\<close>: a negative dimension raises\<close>
  "zeros sh =
     (if list_all (\<lambda>d. 0 \<le> d) sh
      then Inr \<lparr>dims = map nat sh, entries = replicate (prod_list (map nat sh)) (Some 0)\<rparr>
      else Inl ValueError)"

definition column :: "matrix \<Rightarrow> nat \<Rightarrow> scalar list" where
  "column c p = map (\<lambda>u. elems c ! (u * ncols c + p)) [0..<nrows c]"

definition take_cols :: "matrix \<Rightarrow> nat \<Rightarrow> matrix" where
  \<comment> \<open>\<open>c[:, :n]\<close>\<close>
  "take_cols c n =
     \<lparr>nrows = nrows c, ncols = min n (ncols c),
      elems = [elems c ! (u * ncols c + p). u \<leftarrow> [0..<nrows c], p \<leftarrow> [0..<min n (ncols c)]]\<rparr>"

definition drop_cols :: "matrix \<Rightarrow> nat \<Rightarrow> matrix" where
  \<comment> \<open>\<open>c[:, n:]\<close>\<close>
  "drop_cols c n =
     \<lparr>nrows = nrows c, ncols = ncols c - n,
      elems = [elems c ! (u * ncols c + (n + p)). u \<leftarrow> [0..<nrows c], p \<leftarrow> [0..<ncols c - n]]\<rparr>"

section \<open>The mean-field model and the integral providers\<close>

type_synonym kpt = "real \<times> real \<times> real"

text \<open>
  The converged mean-field object, as far as this module reads it. Occupation numbers are
  non-negative counts. \<open>with_df\<close> is the density-fitting backend: the integral of four
  orbitals, given as coefficient columns, at four k-points.
\<close>

record krhf =
  kpts :: "kpt list"
  mo_coeff :: "matrix list"
  mo_occ :: "nat list list"
  complex_orbitals :: bool
  with_df :: "kpt list \<Rightarrow> scalar list \<Rightarrow> scalar list \<Rightarrow> scalar list \<Rightarrow> scalar list \<Rightarrow> scalar"

definition k_nocc :: "krhf \<Rightarrow> nat list" where
  "k_nocc m = map (\<lambda>i. sum_list i div 2) (mo_occ m)"

definition k_nmo :: "krhf \<Rightarrow> nat list" where
  "k_nmo m = map nrows (mo_coeff m)"

definition ao2mo :: "krhf \<Rightarrow> matrix \<times> matrix \<times> matrix \<times> matrix \<Rightarrow> kpt list \<Rightarrow> tensor" where
  \<comment> \<open>Modelled from the spec: the backend's \<open>transform(coeff_4tuple, kpoints_4tuple,
      compact=False) -> dense tensor\<close>, which is not part of this module. Entry
      \<open>(p * nb + q, r * nd + s)\<close> of the result is the integral of columns \<open>p, q, r, s\<close> of the
      four coefficient sets.\<close>
  "ao2mo m coeff ks =
     (case coeff of (a, b, c, d) \<Rightarrow>
        \<lparr>dims = [ncols a * ncols b, ncols c * ncols d],
         entries = map (\<lambda>idx. with_df m ks (column a (idx ! 0)) (column b (idx ! 1))
                                  (column c (idx ! 2)) (column d (idx ! 3)))
                     (indices [ncols a, ncols b, ncols c, ncols d])\<rparr>)"

definition loop_kkk :: "nat \<Rightarrow> (nat \<times> nat \<times> nat) list" where
  \<comment> \<open>Modelled from the spec: the enumeration helper of \<open>pyscf.pbc.lib.kpts_helper\<close>, all
      ordered triples over \<open>range(N_k)^3\<close>.\<close>
  "loop_kkk n = [(k1, k2, k3). k1 \<leftarrow> [0..<n], k2 \<leftarrow> [0..<n], k3 \<leftarrow> [0..<n]]"

datatype provider_class = PhysERI | PhysERI4 | PhysERI8

type_synonym kquad = "nat \<times> nat \<times> nat \<times> nat"

record provider =
  cls :: provider_class
  model :: krhf
  kconserv :: "nat \<Rightarrow> nat \<Rightarrow> nat \<Rightarrow> nat"
  full_eri_k :: "kquad \<rightharpoonup> tensor"

definition PhysERI_nocc :: "provider \<Rightarrow> nat list" where
  "PhysERI_nocc self = k_nocc (model self)"

definition PhysERI_nmo :: "provider \<Rightarrow> nat list" where
  "PhysERI_nmo self = k_nmo (model self)"

definition ao2mo_k :: "provider \<Rightarrow> matrix list \<Rightarrow> nat list \<Rightarrow> error + tensor" where
  "ao2mo_k self coeff k =
     (case (coeff, k) of
        (c0 # c1 # c2 # c3 # _, k0 # k1 # k2 # k3 # _) \<Rightarrow>
          (case sequence (map (nth_err (kpts (model self))) [k0, k2, k1, k3]) of
             Inl e \<Rightarrow> Inl e
           | Inr ks \<Rightarrow>
               (case reshape (ao2mo (model self) (c0, c2, c1, c3) ks)
                       [ncols c0, ncols c2, ncols c1, ncols c3] of
                  Inl e \<Rightarrow> Inl e
                | Inr t \<Rightarrow> Inr (swapaxes12 t)))
      | _ \<Rightarrow> Inl IndexError)"

definition kconserv_at :: "provider \<Rightarrow> nat \<Rightarrow> nat \<Rightarrow> nat \<Rightarrow> error + nat" where
  \<comment> \<open>\<open>self.kconserv[k1, k2, k3]\<close>, an array of shape (N_k, N_k, N_k)\<close>
  "kconserv_at self k1 k2 k3 =
     (let n = length (kpts (model self))
      in if k1 < n \<and> k2 < n \<and> k3 < n then Inr (kconserv self k1 k2 k3) else Inl IndexError)"

fun fill_full_eri_k :: "provider \<Rightarrow> (nat \<times> nat \<times> nat) list \<Rightarrow> error + provider" where
  \<comment> \<open>the loop of \<open>PhysERI.__init__\<close>\<close>
  "fill_full_eri_k self [] = Inr self"
| "fill_full_eri_k self ((k1, k2, k3) # rest) =
     (case kconserv_at self k1 k2 k3 of
        Inl e \<Rightarrow> Inl e
      | Inr k4 \<Rightarrow>
          (case sequence (map (nth_err (mo_coeff (model self))) [k1, k2, k3, k4]) of
             Inl e \<Rightarrow> Inl e
           | Inr coeff \<Rightarrow>
               (case ao2mo_k self coeff [k1, k2, k3, k4] of
                  Inl e \<Rightarrow> Inl e
                | Inr t \<Rightarrow>
                    fill_full_eri_k
                      (self\<lparr>full_eri_k := (full_eri_k self)((k1, k2, k3, k4) \<mapsto> t)\<rparr>) rest)))"

text \<open>
  \<open>get_kconserv\<close> is the conservation-map utility of \<open>pyscf.pbc.tools\<close>, a parameter here;
  the providers keep its result with axes 1 and 2 swapped.
\<close>

definition PhysERI_init :: "(krhf \<Rightarrow> nat \<Rightarrow> nat \<Rightarrow> nat \<Rightarrow> nat) \<Rightarrow> krhf \<Rightarrow> error + provider" where
  "PhysERI_init get_kconserv m =
     fill_full_eri_k
       \<lparr>cls = PhysERI, model = m, kconserv = (\<lambda>k1 k2 k3. get_kconserv m k1 k3 k2),
        full_eri_k = Map.empty\<rparr>
       (loop_kkk (length (kpts m)))"

definition PhysERI4_init :: "(krhf \<Rightarrow> nat \<Rightarrow> nat \<Rightarrow> nat \<Rightarrow> nat) \<Rightarrow> krhf \<Rightarrow> provider" where
  "PhysERI4_init get_kconserv m =
     \<lparr>cls = PhysERI4, model = m, kconserv = (\<lambda>k1 k2 k3. get_kconserv m k1 k3 k2),
      full_eri_k = Map.empty\<rparr>"

definition PhysERI8_init :: "(krhf \<Rightarrow> nat \<Rightarrow> nat \<Rightarrow> nat \<Rightarrow> nat) \<Rightarrow> krhf \<Rightarrow> provider" where
  "PhysERI8_init get_kconserv m = (PhysERI4_init get_kconserv m)\<lparr>cls := PhysERI8\<rparr>"

definition zero_block :: "provider \<Rightarrow> string \<Rightarrow> nat list \<Rightarrow> error + tensor" where
  \<comment> \<open>the \<open>else\<close> branch of both \<open>__calc_block__\<close>\<close>
  "zero_block self itm k =
     (case sequence (map (\<lambda>(i, kx).
               if i = CHR ''o'' then map_sum id int (nth_err (PhysERI_nocc self) kx)
               else (case nth_err (PhysERI_nmo self) kx of
                       Inl e \<Rightarrow> Inl e
                     | Inr n \<Rightarrow> map_sum id (\<lambda>n\<^sub>o. int n - int n\<^sub>o) (nth_err (PhysERI_nocc self) kx)))
             (zip itm k)) of
        Inl e \<Rightarrow> Inl e
      | Inr sh \<Rightarrow> zeros sh)"

definition PhysERI_calc_block :: "provider \<Rightarrow> string \<Rightarrow> kquad \<Rightarrow> error + tensor" where
  "PhysERI_calc_block self itm k =
     (case k of (k1, k2, k3, k4) \<Rightarrow>
        (case full_eri_k self k of
           Some t \<Rightarrow>
             (case sequence (map (\<lambda>(i, kx).
                       map_sum id (\<lambda>n. if i = CHR ''o'' then UpTo n else From n)
                         (nth_err (PhysERI_nocc self) kx))
                     (zip itm [k1, k2, k3, k4])) of
                Inl e \<Rightarrow> Inl e
              | Inr slc \<Rightarrow> Inr (getitem t slc))
         | None \<Rightarrow> zero_block self itm [k1, k2, k3, k4]))"

definition PhysERI4_calc_block :: "provider \<Rightarrow> string \<Rightarrow> kquad \<Rightarrow> error + tensor" where
  "PhysERI4_calc_block self itm k =
     (case k of (k1, k2, k3, k4) \<Rightarrow>
        (case kconserv_at self k1 k2 k3 of
           Inl e \<Rightarrow> Inl e
         | Inr kc \<Rightarrow>
             if kc = k4 then
               (case sequence (map (\<lambda>(i, kx).
                         case nth_err (mo_coeff (model self)) kx of
                           Inl e \<Rightarrow> Inl e
                         | Inr c \<Rightarrow>
                             map_sum id (\<lambda>n. if i = CHR ''o'' then take_cols c n else drop_cols c n)
                               (nth_err (PhysERI_nocc self) kx))
                       (zip itm [k1, k2, k3, k4])) of
                  Inl e \<Rightarrow> Inl e
                | Inr coeff \<Rightarrow> ao2mo_k self coeff [k1, k2, k3, k4])
             else zero_block self itm [k1, k2, k3, k4]))"

definition calc_block :: "provider \<Rightarrow> string \<Rightarrow> kquad \<Rightarrow> error + tensor" where
  \<comment> \<open>\<open>self.__calc_block__(item, k)\<close>, by the class of \<open>self\<close>\<close>
  "calc_block self itm k =
     (case cls self of
        PhysERI \<Rightarrow> PhysERI_calc_block self itm k
      | _ \<Rightarrow> PhysERI4_calc_block self itm k)"

text \<open>
  The invariants of the data model: one coefficient matrix and one occupation vector per
  k-point, and a conservation map that is total with values among the k-point indices.
\<close>

definition wf_model :: "(krhf \<Rightarrow> nat \<Rightarrow> nat \<Rightarrow> nat \<Rightarrow> nat) \<Rightarrow> krhf \<Rightarrow> bool" where
  "wf_model get_kconserv m =
     (let n = length (kpts m)
      in length (mo_coeff m) = n \<and> length (mo_occ m) = n
         \<and> (\<forall>k1<n. \<forall>k2<n. \<forall>k3<n. get_kconserv m k1 k2 k3 < n))"

text \<open>
  The tensor that the constructor of the eager provider stores for a quadruple, and the
  quadruple it derives from a triple.
\<close>

definition cached :: "provider \<Rightarrow> kquad \<Rightarrow> tensor" where
  "cached self k = (case k of (k1, k2, k3, k4) \<Rightarrow>
      projr (ao2mo_k self (map (\<lambda>k. mo_coeff (model self) ! k) [k1, k2, k3, k4]) [k1, k2, k3, k4]))"

definition key_of :: "provider \<Rightarrow> nat \<times> nat \<times> nat \<Rightarrow> kquad" where
  "key_of self k = (case k of (k1, k2, k3) \<Rightarrow> (k1, k2, k3, kconserv self k1 k2 k3))"

text \<open>
  The coefficient slice and the tensor slice that a pattern letter selects, and the entry
  of a transformed block in physicists' order: the integral of columns \<open>idx\<close> of the four
  coefficient sets, passed to the backend as (0, 2, 1, 3).
\<close>

definition restrict_cols :: "char \<Rightarrow> nat \<Rightarrow> matrix \<Rightarrow> matrix" where
  "restrict_cols i n c = (if i = CHR ''o'' then take_cols c n else drop_cols c n)"

definition ov_slice :: "char \<Rightarrow> nat \<Rightarrow> pslice" where
  "ov_slice i n = (if i = CHR ''o'' then UpTo n else From n)"

definition orbital_integral :: "krhf \<Rightarrow> kpt list \<Rightarrow> matrix list \<Rightarrow> nat list \<Rightarrow> scalar" where
  "orbital_integral m ks cs idx =
     with_df m ks (column (cs ! 0) (idx ! 0)) (column (cs ! 2) (idx ! 2))
       (column (cs ! 1) (idx ! 1)) (column (cs ! 3) (idx ! 3))"

section \<open>Merged blocks\<close>

text \<open>
  A Python iterable is either a sequence, which every loop reads from its start, or an
  iterator, which yields its remaining items once. Consuming gives the items and the
  iterable as it is afterwards.
\<close>

datatype 'a iterable = Sequence "'a list" | Iterator "'a list"

fun consume :: "'a iterable \<Rightarrow> 'a list \<times> 'a iterable" where
  "consume (Sequence xs) = (xs, Sequence xs)"
| "consume (Iterator xs) = (xs, Iterator [])"

definition product_range :: "nat \<Rightarrow> (nat \<times> nat) iterable" where
  \<comment> \<open>\<open>product(range(n), range(n))\<close>\<close>
  "product_range n = Iterator [(a, b). a \<leftarrow> [0..<n], b \<leftarrow> [0..<n]]"

definition entry :: "matrix \<Rightarrow> nat \<Rightarrow> nat \<Rightarrow> scalar" where
  "entry m a b = elems m ! (a * ncols m + b)"

definition mrow :: "matrix \<Rightarrow> nat \<Rightarrow> scalar list" where
  "mrow m u = take (ncols m) (drop (u * ncols m) (elems m))"

definition hstack :: "matrix list \<Rightarrow> error + matrix" where
  \<comment> \<open>one list of blocks of \<open>numpy.block\<close>: concatenation along the last axis\<close>
  "hstack ms =
     (case ms of [] \<Rightarrow> Inl ValueError
      | m # _ \<Rightarrow>
          if list_all (\<lambda>x. nrows x = nrows m) ms
          then Inr \<lparr>nrows = nrows m, ncols = sum_list (map ncols ms),
                    elems = concat (map (\<lambda>u. concat (map (\<lambda>x. mrow x u) ms)) [0..<nrows m])\<rparr>
          else Inl ValueError)"

definition vstack :: "matrix list \<Rightarrow> error + matrix" where
  \<comment> \<open>concatenation along the first axis\<close>
  "vstack ms =
     (case ms of [] \<Rightarrow> Inl ValueError
      | m # _ \<Rightarrow>
          if list_all (\<lambda>x. ncols x = ncols m) ms
          then Inr \<lparr>nrows = sum_list (map nrows ms), ncols = ncols m,
                    elems = concat (map elems ms)\<rparr>
          else Inl ValueError)"

definition np_block :: "matrix list list \<Rightarrow> error + matrix" where
  \<comment> \<open>\<open>numpy.block\<close> of a list of lists of 2-D arrays; an empty list raises\<close>
  "np_block rows =
     (case sequence (map hstack rows) of Inl e \<Rightarrow> Inl e | Inr rs \<Rightarrow> vstack rs)"

definition divide_by :: "matrix \<Rightarrow> nat \<Rightarrow> matrix" where
  \<comment> \<open>\<open>r / n\<close> for an integer \<open>n\<close>\<close>
  "divide_by r n = r\<lparr>elems := map (\<lambda>c. fdiv c (Some (real n))) (elems r)\<rparr>"

definition hrow :: "matrix list \<Rightarrow> nat \<Rightarrow> scalar list" where
  \<comment> \<open>row \<open>u\<close> of the blocks of one list, side by side\<close>
  "hrow ms u = concat (map (\<lambda>x. mrow x u) ms)"

fun block_rows ::
  "(nat \<times> nat \<Rightarrow> nat \<times> nat \<Rightarrow> error + matrix) \<Rightarrow> (nat \<times> nat) list \<Rightarrow> (nat \<times> nat) iterable
     \<Rightarrow> error + matrix list list" where
  \<comment> \<open>the two nested loops of \<open>eri_mknj\<close>; the inner loop reads the column iterable anew
      for every row pair\<close>
  "block_rows f [] cols = Inr []"
| "block_rows f (r # rs) cols =
     (case consume cols of (cs, cols') \<Rightarrow>
        (case sequence (map (f r) cs) of
           Inl e \<Rightarrow> Inl e
         | Inr bs \<Rightarrow>
             (case block_rows f rs cols' of
                Inl e \<Rightarrow> Inl e
              | Inr rest \<Rightarrow> Inr (bs # rest))))"

text \<open>
  \<open>eri_mknj_k\<close> hands the request for one quadruple to the molecular base class
  \<open>TDDFTMatrixBlocks\<close>, which is not part of this module; it is a parameter here, a block
  or an exception for a pattern and a quadruple.
\<close>

definition eri_mknj ::
  "provider \<Rightarrow> (string \<Rightarrow> kquad \<Rightarrow> error + matrix) \<Rightarrow> string
     \<Rightarrow> (nat \<times> nat) iterable option \<Rightarrow> (nat \<times> nat) iterable option \<Rightarrow> error + matrix" where
  "eri_mknj self eri_mknj_k itm pairs_row pairs_column =
     (let n = length (kpts (model self));
          pairs_row = (case pairs_row of None \<Rightarrow> product_range n | Some it \<Rightarrow> it);
          pairs_column = (case pairs_column of None \<Rightarrow> product_range n | Some it \<Rightarrow> it);
          pairs_column = Sequence (fst (consume pairs_column))
      in case block_rows (\<lambda>(k1, k2) (k3, k4). eri_mknj_k itm (k1, k2, k3, k4))
                (fst (consume pairs_row)) pairs_column of
           Inl e \<Rightarrow> Inl e
         | Inr result \<Rightarrow>
             (case np_block result of
                Inl e \<Rightarrow> Inl e
              | Inr r \<Rightarrow> Inr (divide_by r n)))"

definition items :: "'a iterable \<Rightarrow> 'a list" where
  \<comment> \<open>what an iterable yields when it is read next\<close>
  "items it = fst (consume it)"

section \<open>The driver and the container\<close>

text \<open>
  What the driver takes from outside this module: the conservation-map utility, and
  \<open>build_matrix\<close> and \<open>eig\<close> of the molecular module \<open>pyscf.tdscf.rhf_slow\<close>. They are
  deterministic functions of their arguments that return a value or raise; the backend's
  failures surface through them.
\<close>

record externals =
  get_kconserv :: "krhf \<Rightarrow> nat \<Rightarrow> nat \<Rightarrow> nat \<Rightarrow> nat"
  build_matrix :: "provider \<Rightarrow> error + matrix"
  eig :: "matrix \<Rightarrow> string option \<Rightarrow> nat option \<Rightarrow> error + (scalar list \<times> matrix)"

datatype kernel_arg = Model krhf | Provider provider

definition kernel ::
  "externals \<Rightarrow> store \<Rightarrow> kernel_arg \<Rightarrow> string option \<Rightarrow> nat option \<Rightarrow> bool
     \<Rightarrow> (error + scalar list \<times> tview \<times> provider option) \<times> store" where
  \<comment> \<open>the eigenvectors that \<open>eig\<close> returns are a new array, allocated in the store\<close>
  "kernel ext st arg driver nroots return_eri =
     (let eri = (case arg of
                   Provider p \<Rightarrow> p
                 | Model m \<Rightarrow>
                     if complex_orbitals m then PhysERI4_init (get_kconserv ext) m
                     else PhysERI8_init (get_kconserv ext) m)
      in case build_matrix ext eri of
           Inl err \<Rightarrow> (Inl err, st)
         | Inr mat \<Rightarrow>
             (case eig ext mat driver nroots of
                Inl err \<Rightarrow> (Inl err, st)
              | Inr (vals, vecs) \<Rightarrow>
                  (case alloc st (elems vecs) of
                     (a, st1) \<Rightarrow>
                       (case vector_to_amplitudes st1 \<lparr>buf = a, shape = [nrows vecs, ncols vecs]\<rparr>
                               (PhysERI_nocc eri) (PhysERI_nmo eri) of
                          (Inl err, st2) \<Rightarrow> (Inl err, st2)
                        | (Inr amps, st2) \<Rightarrow>
                            (Inr (vals, amps, if return_eri then Some eri else None), st2)))))"

record tdrhf =
  td_scf :: krhf
  td_driver :: "string option"
  td_nroots :: "nat option"
  td_eri :: "provider option"
  td_xy :: "tview option"
  td_e :: "scalar list option"

definition TDRHF_init :: "krhf \<Rightarrow> tdrhf" where
  "TDRHF_init mf =
     \<lparr>td_scf = mf, td_driver = None, td_nroots = None, td_eri = None, td_xy = None, td_e = None\<rparr>"

definition TDRHF_kernel ::
  "externals \<Rightarrow> store \<Rightarrow> tdrhf \<Rightarrow> (error + scalar list \<times> tview) \<times> store \<times> tdrhf" where
  \<comment> \<open>the three attributes are assigned after \<open>kernel\<close> has returned\<close>
  "TDRHF_kernel ext st self =
     (case kernel ext st
             (case td_eri self of None \<Rightarrow> Model (td_scf self) | Some p \<Rightarrow> Provider p)
             (td_driver self) (td_nroots self) True of
        (Inl err, st') \<Rightarrow> (Inl err, st', self)
      | (Inr (vals, vecs, new_eri), st') \<Rightarrow>
          (Inr (vals, vecs), st', self\<lparr>td_e := Some vals, td_xy := Some vecs, td_eri := new_eri\<rparr>))"

definition view_value :: "store \<Rightarrow> tview \<Rightarrow> nat list \<times> scalar list" where
  \<comment> \<open>the shape and the entries of a view, read through the store\<close>
  "view_value st v =
     (view_shape v, map (\<lambda>idx. scalar_of (view_item st v idx)) (indices (view_shape v)))"

definition provider_of :: "externals \<Rightarrow> kernel_arg \<Rightarrow> provider" where
  \<comment> \<open>the provider that \<open>kernel\<close> works with: the one it is given, or the one it builds\<close>
  "provider_of ext arg =
     (case arg of
        Provider p \<Rightarrow> p
      | Model m \<Rightarrow>
          if complex_orbitals m then PhysERI4_init (get_kconserv ext) m
          else PhysERI8_init (get_kconserv ext) m)"

section \<open>Symmetry declarations of the providers\<close>

definition PhysERI4_symmetries :: "(nat list \<times> bool) list" where
  "PhysERI4_symmetries =
     [([0, 1, 2, 3], False),
      ([1, 0, 3, 2], False),
      ([2, 3, 0, 1], True),
      ([3, 2, 1, 0], True)]"

definition PhysERI8_symmetries :: "(nat list \<times> bool) list" where
  "PhysERI8_symmetries =
     [([0, 1, 2, 3], False),
      ([1, 0, 3, 2], False),
      ([2, 3, 0, 1], False),
      ([3, 2, 1, 0], False),
      ([2, 1, 0, 3], False),
      ([3, 0, 1, 2], False),
      ([0, 3, 2, 1], False),
      ([1, 2, 3, 0], False)]"

section \<open>Concrete instances\<close>

text \<open>
  A small model for concrete instances: two k-points, two orbitals of which one is doubly
  occupied at each k-point, and the conservation map of a 2 x 1 x 1 grid.
\<close>

definition two_point_model :: krhf where
  "two_point_model =
     \<lparr>kpts = [(0, 0, 0), (1 / 2, 0, 0)],
      mo_coeff = [\<lparr>nrows = 2, ncols = 2, elems = [Some 1, Some 0, Some 0, Some 1]\<rparr>,
                  \<lparr>nrows = 2, ncols = 2, elems = [Some 1, Some 0, Some 0, Some 1]\<rparr>],
      mo_occ = [[2, 0], [2, 0]],
      complex_orbitals = False,
      with_df = (\<lambda>ks a b c d. Some 1)\<rparr>"

definition two_point_kconserv :: "krhf \<Rightarrow> nat \<Rightarrow> nat \<Rightarrow> nat \<Rightarrow> nat" where
  "two_point_kconserv m k1 k2 k3 = (k1 + k2 + k3) mod 2"

text \<open>
  Collaborators for concrete instances on the two-point model: an eigen-routine that
  returns one root with x = (3, 0, 0, 0) and y = (1, 0, 0, 0), and one that returns a
  vector of the wrong length.
\<close>

definition two_point_externals :: externals where
  "two_point_externals =
     \<lparr>get_kconserv = two_point_kconserv,
      build_matrix = (\<lambda>p. Inr \<lparr>nrows = 1, ncols = 1, elems = [Some 0]\<rparr>),
      eig = (\<lambda>m d n. Inr ([Some 1],
               \<lparr>nrows = 8, ncols = 1,
                elems = [Some 3, Some 0, Some 0, Some 0, Some 1, Some 0, Some 0, Some 0]\<rparr>))\<rparr>"

definition short_vector_externals :: externals where
  "short_vector_externals =
     two_point_externals
       \<lparr>eig := (\<lambda>m d n. Inr ([Some 1], \<lparr>nrows = 3, ncols = 1, elems = [Some 1, Some 0, Some 0]\<rparr>))\<rparr>"

section \<open>The reshaper and the symmetry lists\<close>

lemma list_all_hd_iff: "list_all (\<lambda>i. i = hd xs) xs \<longleftrightarrow> (\<forall>x\<in>set xs. \<forall>y\<in>set xs. x = y)"
proof (cases xs)
  case Nil
  then show ?thesis by simp
next
  case (Cons a as)
  have "(\<forall>x\<in>set (a # as). x = a) \<longleftrightarrow> (\<forall>x\<in>set (a # as). \<forall>y\<in>set (a # as). x = y)"
    by (metis list.set_intros(1))
  with Cons show ?thesis by (simp add: list_all_iff)
qed

text \<open>
  C5. When the per-k-point occupied counts are not all equal, or the per-k-point orbital
  counts are not all equal (both tuples have one entry per k-point), the reshaper raises
  NotImplementedError whatever the vectors are, and the store, hence the vector data, is
  as it was: no reshape and no normalisation has happened.
\<close>

theorem vector_to_amplitudes_heterogeneous:
  assumes "length nocc = length nmo"
    and "\<not> (\<forall>x\<in>set nocc. \<forall>y\<in>set nocc. x = y) \<or> \<not> (\<forall>x\<in>set nmo. \<forall>y\<in>set nmo. x = y)"
  shows "vector_to_amplitudes st vectors nocc nmo = (Inl NotImplementedError, st)"
proof (cases "list_all (\<lambda>i. i = hd nocc) nocc")
  case False
  then show ?thesis by (simp add: vector_to_amplitudes_def)
next
  case True
  with assms(2) have bad: "\<not> list_all (\<lambda>i. i = hd nmo) nmo"
    by (simp only: list_all_hd_iff) blast
  then have "nmo \<noteq> []" by auto
  with assms(1) obtain n ns where "nocc = n # ns" by (cases nocc) auto
  with True bad show ?thesis
    by (simp add: vector_to_amplitudes_def)
qed

theorem vector_to_amplitudes_heterogeneous_witness:
  "vector_to_amplitudes [[Some 1, Some 0]] \<lparr>buf = 0, shape = [2, 1]\<rparr> [1, 2] [2, 2]
     = (Inl NotImplementedError, [[Some 1, Some 0]])
   \<and> vector_to_amplitudes [[Some 1, Some 0]] \<lparr>buf = 0, shape = [2, 1]\<rparr> [1, 1] [2, 3]
     = (Inl NotImplementedError, [[Some 1, Some 0]])"
  using vector_to_amplitudes_heterogeneous [of "[1, 2]" "[2, 2]" "[[Some 1, Some 0]]" "\<lparr>buf = 0, shape = [2, 1]\<rparr>"]
    vector_to_amplitudes_heterogeneous [of "[1, 1]" "[2, 3]" "[[Some 1, Some 0]]" "\<lparr>buf = 0, shape = [2, 1]\<rparr>"]
  by simp

text \<open>
  C4, as the code has it. The 8-fold provider declares eight entries with eight distinct
  index permutations; the first four are the permutations of the 4-fold provider, in its
  order, and every one of the eight flags is False, also for the two permutations that
  the 4-fold provider flags for complex conjugation.
\<close>

theorem PhysERI8_symmetries_entries:
  "length PhysERI8_symmetries = 8
   \<and> distinct (map fst PhysERI8_symmetries)
   \<and> map fst (take 4 PhysERI8_symmetries) = map fst PhysERI4_symmetries
   \<and> length PhysERI4_symmetries = 4
   \<and> map snd PhysERI8_symmetries = [False, False, False, False, False, False, False, False]
   \<and> map snd PhysERI4_symmetries = [False, False, True, True]"
  by (simp add: PhysERI8_symmetries_def PhysERI4_symmetries_def)

text \<open>
  The claim as written asks the shared permutations to carry the flags of the 4-fold
  provider. The permutation (2, 3, 0, 1) is declared with conjugation by the 4-fold
  provider and without it by the 8-fold provider.
\<close>

theorem PhysERI8_symmetries_flags_counterexample:
  "([2, 3, 0, 1], True) \<in> set PhysERI4_symmetries
   \<and> ([2, 3, 0, 1], True) \<notin> set PhysERI8_symmetries
   \<and> ([2, 3, 0, 1], False) \<in> set PhysERI8_symmetries"
  by (simp add: PhysERI8_symmetries_def PhysERI4_symmetries_def)

lemma ravel_less: "list_all2 (<) idx sh \<Longrightarrow> ravel sh idx < prod_list sh"
proof (induction sh idx rule: ravel.induct)
  case (1 d ds i "is")
  then have i: "i < d" and r: "ravel ds is < prod_list ds" by auto
  have "i * prod_list ds + ravel ds is < i * prod_list ds + prod_list ds" using r by simp
  also have "\<dots> = Suc i * prod_list ds" by simp
  also have "\<dots> \<le> d * prod_list ds" using i by (intro mult_le_mono1) simp
  finally show ?case by simp
qed auto

lemma ravel6_mod: "r < R \<Longrightarrow> ravel [n0, n1, n2, n3, n4, R] [d, k1, k2, i, a, r] mod R = r"
proof -
  assume r: "r < R"
  have "ravel [n0, n1, n2, n3, n4, R] [d, k1, k2, i, a, r]
        = r + (d * (n1 * n2 * n3 * n4) + k1 * (n2 * n3 * n4) + k2 * (n3 * n4) + i * n4 + a) * R"
    by (simp add: algebra_simps)
  then have "ravel [n0, n1, n2, n3, n4, R] [d, k1, k2, i, a, r] mod R = r mod R"
    by (simp only: mod_mult_self1)
  then show ?thesis using r by (simp only: mod_less)
qed

lemma fsum_Cons: "fsum (x # xs) = fadd x (fsum xs)"
  by (simp add: fsum_def)

lemma fsum_scaled:
  assumes "\<forall>j\<in>set js. p j < length b \<and> p j mod R = r"
    and "r < length s" and "s ! r = Some q" and "0 < q"
    and "fsum (map (\<lambda>j. abs_sq (b ! p j)) js) = Some X"
  shows "fsum (map (\<lambda>j. abs_sq (idiv_last b R s ! p j)) js) = Some (X / q\<^sup>2)"
  using assms(1,5)
proof (induction js arbitrary: X)
  case Nil
  then show ?case by (simp add: fsum_def)
next
  case (Cons j js)
  from Cons.prems(2) obtain z X' where z: "b ! p j = Some z" and X': "fsum (map (\<lambda>j. abs_sq (b ! p j)) js) = Some X'"
    and X: "X = (cmod z)\<^sup>2 + X'"
    by (auto simp: fsum_Cons fadd_def abs_sq_def split: option.splits)
  from Cons.prems(1) have pj: "p j < length b" "p j mod R = r" by auto
  have IH: "fsum (map (\<lambda>j. abs_sq (idiv_last b R s ! p j)) js) = Some (X' / q\<^sup>2)"
    using Cons.IH[OF _ X'] Cons.prems(1) by simp
  have "idiv_last b R s ! p j = Some (z / complex_of_real q)"
    using pj z assms(3,4) by (simp add: idiv_last_def fdiv_def)
  then have "abs_sq (idiv_last b R s ! p j) = Some ((cmod z)\<^sup>2 / q\<^sup>2)"
    using assms(4) by (simp add: abs_sq_def norm_divide power_divide)
  with IH X show ?case
    by (simp add: fsum_Cons fadd_def add_divide_distrib)
qed

lemma inner_indices_range:
  "(k1, k2, i, a) \<in> set (inner_indices sh) \<Longrightarrow> k1 < sh ! 1 \<and> k2 < sh ! 2 \<and> i < sh ! 3 \<and> a < sh ! 4"
  by (auto simp: inner_indices_def)

lemma np_reshape6:
  assumes "no \<le> nm" and "shape a = [2 * nk * nk * no * (nm - no), R]"
  shows "np_reshape a [2, int nk, int nk, int no, int nm - int no, int R]
         = Inr (a\<lparr>shape := [2, nk, nk, no, nm - no, R]\<rparr>)"
proof -
  have d: "int nm - int no = int (nm - no)" using assms(1) by simp
  have f1: "filter (\<lambda>d. d < 0) [2, int nk, int nk, int no, int (nm - no), int R] = []"
    by simp
  have f2: "filter (\<lambda>d. 0 \<le> d) [2, int nk, int nk, int no, int (nm - no), int R]
            = [2, int nk, int nk, int no, int (nm - no), int R]"
    by simp
  have p: "prod_list [2, int nk, int nk, int no, int (nm - no), int R]
           = int (prod_list (shape a))"
    using assms(2) by simp
  show ?thesis
    unfolding np_reshape_def d Let_def f1 f2 p by simp
qed

lemma homogeneous_hd: "xs \<noteq> [] \<Longrightarrow> list_all (\<lambda>i. i = n) xs \<Longrightarrow> hd xs = n \<and> list_all (\<lambda>i. i = hd xs) xs"
  by (cases xs) auto

lemma vector_to_amplitudes_success:
  assumes "nocc \<noteq> []" and "list_all (\<lambda>i. i = no) nocc"
    and "nmo \<noteq> []" and "list_all (\<lambda>i. i = nm) nmo"
    and "no \<le> nm"
    and "shape vectors = [2 * length nocc * length nocc * no * (nm - no), R]"
  shows "vector_to_amplitudes st vectors nocc nmo =
     (Inr \<lparr>base = vectors\<lparr>shape := [2, length nocc, length nocc, no, nm - no, R]\<rparr>,
           axes = [5, 0, 1, 2, 3, 4]\<rparr>,
      st[buf vectors := idiv_last (st ! buf vectors) R
           (map fsqrt (root_norms (st ! buf vectors) [2, length nocc, length nocc, no, nm - no, R]))])"
proof -
  obtain n ns where nocc: "nocc = n # ns" using assms(1) by (cases nocc) auto
  obtain m ms where nmo: "nmo = m # ms" using assms(3) by (cases nmo) auto
  have n: "n = no" and m: "m = nm" using assms(2,4) nocc nmo by auto
  have h1: "list_all (\<lambda>i. i = hd nocc) nocc" using homogeneous_hd[OF assms(1,2)] by blast
  have h2: "list_all (\<lambda>i. i = hd nmo) nmo" using homogeneous_hd[OF assms(3,4)] by blast
  have r: "np_reshape vectors [2, int (length nocc), int (length nocc), int no, int nm - int no, int R]
         = Inr (vectors\<lparr>shape := [2, length nocc, length nocc, no, nm - no, R]\<rparr>)"
    by (rule np_reshape6[OF assms(5,6)])
  show ?thesis
    unfolding vector_to_amplitudes_def
    using h1 h2 r assms(6)
    by (simp add: nocc nmo n m np_transpose_def Let_def)
qed


lemma upt6: "[0..<6] = [0, 1, 2, 3, 4, 5::nat]"
  by (simp add: upt_rec)

lemma view_item6:
  assumes "r < R" "d < n0" "k1 < n1" "k2 < n2" "i < n3" "a < n4"
    and "shape v = [n0, n1, n2, n3, n4, R]"
  shows "view_item st \<lparr>base = v, axes = [5, 0, 1, 2, 3, 4]\<rparr> [r, d, k1, k2, i, a]
         = Inr (st ! buf v ! ravel [n0, n1, n2, n3, n4, R] [d, k1, k2, i, a, r])"
  using assms by (simp add: view_item_def view_shape_def arg_of_def upt6)

lemma ravel6_less:
  assumes "r < R" "d < n0" "k1 < n1" "k2 < n2" "i < n3" "a < n4"
  shows "ravel [n0, n1, n2, n3, n4, R] [d, k1, k2, i, a, r] < prod_list [n0, n1, n2, n3, n4, R]"
  by (rule ravel_less) (simp add: assms)

lemma amplitude_sum_scaled:
  assumes sh: "sh = [2, n1, n2, n3, n4, R]" and "shape v = sh"
    and b: "length b = prod_list sh" and "buf v < length st"
    and r: "r < R" and d: "d < 2"
    and s: "length s = R" "s ! r = Some q" "0 < q"
    and X: "axis_sum b sh d r = Some X"
  shows "amplitude_sum (st[buf v := idiv_last b R s]) \<lparr>base = v, axes = [5, 0, 1, 2, 3, 4]\<rparr> r d
         = Some (X / q\<^sup>2)"
proof -
  let ?st = "st[buf v := idiv_last b R s]"
  let ?p = "\<lambda>(k1, k2, i, a). ravel sh [d, k1, k2, i, a, r]"
  have vs: "tl (view_shape \<lparr>base = v, axes = [5, 0, 1, 2, 3, 4]\<rparr>)
              @ [hd (view_shape \<lparr>base = v, axes = [5, 0, 1, 2, 3, 4]\<rparr>)] = sh"
    using assms(1,2) by (simp add: view_shape_def)
  have item: "abs_sq (scalar_of (view_item ?st \<lparr>base = v, axes = [5, 0, 1, 2, 3, 4]\<rparr> [r, d, k1, k2, i, a]))
              = abs_sq (idiv_last b R s ! ?p (k1, k2, i, a))"
    if "(k1, k2, i, a) \<in> set (inner_indices sh)" for k1 k2 i a
  proof -
    from inner_indices_range[OF that] have "k1 < n1" "k2 < n2" "i < n3" "a < n4"
      by (simp_all add: sh)
    then show ?thesis
      using view_item6[of r R d 2 k1 n1 k2 n2 i n3 a n4 v ?st] r d assms(2,4) sh
      by (simp add: scalar_of_def)
  qed
  have m: "map (\<lambda>(k1, k2, i, a). abs_sq (scalar_of (view_item ?st \<lparr>base = v, axes = [5, 0, 1, 2, 3, 4]\<rparr> [r, d, k1, k2, i, a])))
             (inner_indices sh)
         = map (\<lambda>j. abs_sq (idiv_last b R s ! ?p j)) (inner_indices sh)"
    by (rule map_cong[OF refl]) (use item in auto)
  have rng: "\<forall>j\<in>set (inner_indices sh). ?p j < length b \<and> ?p j mod R = r"
  proof
    fix j assume j: "j \<in> set (inner_indices sh)"
    obtain k1 k2 i a where je: "j = (k1, k2, i, a)" by (cases j) auto
    from inner_indices_range[OF j[unfolded je]] have k: "k1 < n1" "k2 < n2" "i < n3" "a < n4"
      by (simp_all add: sh)
    have "ravel sh [d, k1, k2, i, a, r] < length b"
      unfolding b sh by (rule ravel6_less[OF r d k])
    moreover have "ravel sh [d, k1, k2, i, a, r] mod R = r"
      unfolding sh by (rule ravel6_mod[OF r])
    ultimately show "?p j < length b \<and> ?p j mod R = r" by (simp add: je)
  qed
  have X': "fsum (map (\<lambda>j. abs_sq (b ! ?p j)) (inner_indices sh)) = Some X"
    using X by (simp add: axis_sum_def case_prod_unfold)
  have "fsum (map (\<lambda>j. abs_sq (idiv_last b R s ! ?p j)) (inner_indices sh)) = Some (X / q\<^sup>2)"
    by (rule fsum_scaled[OF rng _ s(2) s(3) X']) (simp add: s(1) r)
  then show ?thesis
    unfolding amplitude_sum_def vs m .
qed


lemma root_norms_nth:
  "r < R \<Longrightarrow> root_norms b [n0, n1, n2, n3, n4, R] ! r
     = fdouble (fsub (axis_sum b [n0, n1, n2, n3, n4, R] 0 r) (axis_sum b [n0, n1, n2, n3, n4, R] 1 r))"
  by (simp add: root_norms_def)

lemma amplitude_norm_one:
  assumes sh: "sh = [2, n1, n2, n3, n4, R]" and v: "shape v = sh"
    and b: "length b = prod_list sh" and bv: "buf v < length st"
    and r: "r < R"
    and t: "root_norms b sh ! r = Some t" "0 < t"
  shows "amplitude_norm (st[buf v := idiv_last b R (map fsqrt (root_norms b sh))])
           \<lparr>base = v, axes = [5, 0, 1, 2, 3, 4]\<rparr> r = Some 1"
proof -
  let ?s = "map fsqrt (root_norms b sh)"
  have len: "length ?s = R" by (simp add: root_norms_def sh)
  have sr: "?s ! r = Some (sqrt t)"
    using t r by (simp add: root_norms_def sh fsqrt_def)
  have q: "0 < sqrt t" using t(2) by simp
  from t(1) obtain X Y where X: "axis_sum b sh 0 r = Some X" and Y: "axis_sum b sh 1 r = Some Y"
    and txy: "t = 2 * (X - Y)"
    unfolding sh root_norms_nth[OF r]
    by (auto simp: fdouble_def fsub_def split: option.splits)
  have aX: "amplitude_sum (st[buf v := idiv_last b R ?s]) \<lparr>base = v, axes = [5, 0, 1, 2, 3, 4]\<rparr> r 0
            = Some (X / (sqrt t)\<^sup>2)"
    by (rule amplitude_sum_scaled[OF sh v b bv r _ len sr q X]) simp
  have aY: "amplitude_sum (st[buf v := idiv_last b R ?s]) \<lparr>base = v, axes = [5, 0, 1, 2, 3, 4]\<rparr> r 1
            = Some (Y / (sqrt t)\<^sup>2)"
    by (rule amplitude_sum_scaled[OF sh v b bv r _ len sr q Y]) simp
  have sq: "(sqrt t)\<^sup>2 = t" using t(2) by simp
  have "2 * (X / t - Y / t) = 1"
    using t(2) txy by (simp add: field_simps)
  then show ?thesis
    unfolding amplitude_norm_def aX aY sq by (simp add: fdouble_def fsub_def)
qed

lemma ravel6_split:
  "ravel [n0, n1, n2, n3, n4, R] [d, k1, k2, i, a, r]
   = ravel [n0 * n1 * n2 * n3 * n4, R] [ravel [n0, n1, n2, n3, n4] [d, k1, k2, i, a], r]"
  by (simp add: algebra_simps)

lemma idiv_last_nth:
  "j < length b \<Longrightarrow> idiv_last b n s ! j = fdiv (b ! j) (s ! (j mod n))"
  by (simp add: idiv_last_def)

lemma ravel2_less: "n < N \<Longrightarrow> r < R \<Longrightarrow> ravel [N, R] [n, r] < N * R"
  using ravel_less[of "[n, r]" "[N, R]"] by simp

lemma ravel2_mod: "r < R \<Longrightarrow> ravel [N, R] [n, r] mod R = r"
  by simp

lemma sqrt16: "sqrt 16 = 4"
  using real_sqrt_abs[of 4] by simp

lemma normalized_entry:
  assumes "buf vectors < length st" and "length (st ! buf vectors) = N * R"
    and "n < N" and "r < R" and "sh ! 5 = R"
  shows "st[buf vectors := idiv_last (st ! buf vectors) R (map fsqrt (root_norms (st ! buf vectors) sh))]
           ! buf vectors ! ravel [N, R] [n, r]
         = fdiv (st ! buf vectors ! ravel [N, R] [n, r]) (fsqrt (root_norms (st ! buf vectors) sh ! r))"
proof -
  have l: "ravel [N, R] [n, r] < length (st ! buf vectors)"
    unfolding assms(2) by (rule ravel2_less[OF assms(3,4)])
  have m: "ravel [N, R] [n, r] mod R = r" by (rule ravel2_mod[OF assms(4)])
  have s: "map fsqrt (root_norms (st ! buf vectors) sh) ! r = fsqrt (root_norms (st ! buf vectors) sh ! r)"
    using assms(4,5) by (simp add: root_norms_def)
  show ?thesis
    unfolding nth_list_update_eq[OF assms(1)] idiv_last_nth[OF l] m s ..
qed

lemma ravel5_less:
  assumes "d < n0" "k1 < n1" "k2 < n2" "i < n3" "a < n4"
  shows "ravel [n0, n1, n2, n3, n4] [d, k1, k2, i, a] < n0 * n1 * n2 * n3 * n4"
  using ravel_less[of "[d, k1, k2, i, a]" "[n0, n1, n2, n3, n4]"] assms
  by (simp add: mult.assoc)

text \<open>
  C1, as the code has it. The vectors are an array of 2 * nk * nk * nocc * (nmo - nocc) rows
  and R columns (one column per root), for nk homogeneous k-points. The reshaper returns a
  view of shape (R, 2, nk, nk, nocc, nmo - nocc) whose entry [r, d, k1, k2, i, a] is the
  entry of column r at the row of flat index (d, k1, k2, i, a), divided by the square root
  of that root's 2 * (sum |x|^2 - sum |y|^2). For every root where this quantity is a
  positive finite number, the same quantity read from the returned tensor is 1.
\<close>

theorem vector_to_amplitudes_normalized:
  assumes "nocc \<noteq> []" and "list_all (\<lambda>i. i = no) nocc"
    and "nmo \<noteq> []" and "list_all (\<lambda>i. i = nm) nmo"
    and "no \<le> nm"
    and "shape vectors = [2 * length nocc * length nocc * no * (nm - no), R]"
    and "valid_array st vectors"
  shows "\<exists>res st'. vector_to_amplitudes st vectors nocc nmo = (Inr res, st')
           \<and> view_shape res = [R, 2, length nocc, length nocc, no, nm - no]
           \<and> (\<forall>r d k1 k2 i a.
                 r < R \<and> d < 2 \<and> k1 < length nocc \<and> k2 < length nocc \<and> i < no \<and> a < nm - no
                 \<longrightarrow> view_item st' res [r, d, k1, k2, i, a]
                     = Inr (fdiv (st ! buf vectors ! ravel (shape vectors)
                                    [ravel [2, length nocc, length nocc, no, nm - no] [d, k1, k2, i, a], r])
                              (fsqrt (root_norms (st ! buf vectors)
                                        [2, length nocc, length nocc, no, nm - no, R] ! r))))
           \<and> (\<forall>r t. r < R
                  \<and> root_norms (st ! buf vectors) [2, length nocc, length nocc, no, nm - no, R] ! r = Some t
                  \<and> 0 < t
                \<longrightarrow> amplitude_norm st' res r = Some 1)"
proof -
  let ?sh = "[2, length nocc, length nocc, no, nm - no, R]"
  let ?N = "2 * length nocc * length nocc * no * (nm - no)"
  let ?v = "vectors\<lparr>shape := ?sh\<rparr>"
  let ?b = "st ! buf vectors"
  let ?res = "\<lparr>base = ?v, axes = [5, 0, 1, 2, 3, 4]\<rparr>"
  let ?st = "st[buf vectors := idiv_last ?b R (map fsqrt (root_norms ?b ?sh))]"
  have run: "vector_to_amplitudes st vectors nocc nmo = (Inr ?res, ?st)"
    by (rule vector_to_amplitudes_success[OF assms(1-6)])
  have bv: "buf vectors < length st" and lb: "length ?b = prod_list ?sh"
    and lb2: "length ?b = ?N * R"
    using assms(6,7) by (simp_all add: valid_array_def)
  have shp: "view_shape ?res = [R, 2, length nocc, length nocc, no, nm - no]"
    by (simp add: view_shape_def)
  have item: "view_item ?st ?res [r, d, k1, k2, i, a]
              = Inr (fdiv (?b ! ravel (shape vectors)
                             [ravel [2, length nocc, length nocc, no, nm - no] [d, k1, k2, i, a], r])
                       (fsqrt (root_norms ?b ?sh ! r)))"
    if "r < R" "d < 2" "k1 < length nocc" "k2 < length nocc" "i < no" "a < nm - no"
    for r d k1 k2 i a
  proof -
    have n: "ravel [2, length nocc, length nocc, no, nm - no] [d, k1, k2, i, a] < ?N"
      by (rule ravel5_less[OF that(2-6)])
    have a: "view_item ?st ?res [r, d, k1, k2, i, a]
          = Inr (?st ! buf vectors ! ravel ?sh [d, k1, k2, i, a, r])"
      using view_item6[OF that, of ?v ?st] by simp
    have b: "ravel ?sh [d, k1, k2, i, a, r]
               = ravel [?N, R] [ravel [2, length nocc, length nocc, no, nm - no] [d, k1, k2, i, a], r]"
      by (rule ravel6_split)
    have c: "?st ! buf vectors
               ! ravel [?N, R] [ravel [2, length nocc, length nocc, no, nm - no] [d, k1, k2, i, a], r]
             = fdiv (?b ! ravel [?N, R] [ravel [2, length nocc, length nocc, no, nm - no] [d, k1, k2, i, a], r])
                 (fsqrt (root_norms ?b ?sh ! r))"
      by (rule normalized_entry[OF bv lb2 n that(1)]) simp
    show ?thesis
      by (simp only: a b c assms(6))
  qed
  have nrm: "amplitude_norm ?st ?res r = Some 1"
    if "r < R" "root_norms ?b ?sh ! r = Some t" "0 < t" for r t
    using amplitude_norm_one[OF refl _ lb _ that(1) that(2) that(3), of ?v st] bv by simp
  show ?thesis
    using run shp item nrm by blast
qed

theorem vector_to_amplitudes_normalized_witness:
  "\<exists>res st'. vector_to_amplitudes [[Some 3, Some 1]] \<lparr>buf = 0, shape = [2, 1]\<rparr> [1] [2] = (Inr res, st')
      \<and> view_shape res = [1, 2, 1, 1, 1, 1]
      \<and> view_item st' res [0, 1, 0, 0, 0, 0] = Inr (Some (1 / 4))
      \<and> amplitude_norm st' res 0 = Some 1"
proof -
  have t: "root_norms ([[Some 3, Some 1]] ! 0) [2, 1, 1, 1, 1, 1] ! 0 = Some 16"
    by (simp add: root_norms_def axis_sum_def inner_indices_def fsum_def fadd_def fsub_def
        fdouble_def abs_sq_def)
  from vector_to_amplitudes_normalized [of "[1]" 1 "[2]" 2 "\<lparr>buf = 0, shape = [2, 1]\<rparr>" 1 "[[Some 3, Some 1]]"]
  obtain res st' where
    run: "vector_to_amplitudes [[Some 3, Some 1]] \<lparr>buf = 0, shape = [2, 1]\<rparr> [1] [2] = (Inr res, st')"
    and shp: "view_shape res = [1, 2, 1, 1, 1, 1]"
    and item: "\<And>r d k1 k2 i a. r < 1 \<and> d < 2 \<and> k1 < 1 \<and> k2 < 1 \<and> i < 1 \<and> a < 1
         \<Longrightarrow> view_item st' res [r, d, k1, k2, i, a]
            = Inr (fdiv ([[Some 3, Some 1]] ! 0 ! ravel [2, 1] [ravel [2, 1, 1, 1, 1] [d, k1, k2, i, a], r])
                     (fsqrt (root_norms ([[Some 3, Some 1]] ! 0) [2, 1, 1, 1, 1, 1] ! r)))"
    and nrm: "\<And>r t. r < 1 \<and> root_norms ([[Some 3, Some 1]] ! 0) [2, 1, 1, 1, 1, 1] ! r = Some t \<and> 0 < t
         \<Longrightarrow> amplitude_norm st' res r = Some 1"
    by (auto simp: valid_array_def)
  have "view_item st' res [0, 1, 0, 0, 0, 0] = Inr (Some (1 / 4))"
    using item[of 0 1 0 0 0 0] t by (simp add: fsqrt_def fdiv_def sqrt16)
  moreover have "amplitude_norm st' res 0 = Some 1"
    using nrm[of 0 16] t by simp
  ultimately show ?thesis using run shp by blast
qed

text \<open>
  The claim as written, for every matrix of eigenvectors, fails at a root whose
  2 * (sum |x|^2 - sum |y|^2) is negative: for the single column (x, y) = (0, 1) it is -2,
  its square root is nan, and every returned entry is not a number.
\<close>

theorem vector_to_amplitudes_normalized_counterexample:
  "vector_to_amplitudes [[Some 0, Some 1]] \<lparr>buf = 0, shape = [2, 1]\<rparr> [1] [2]
     = (Inr \<lparr>base = \<lparr>buf = 0, shape = [2, 1, 1, 1, 1, 1]\<rparr>, axes = [5, 0, 1, 2, 3, 4]\<rparr>,
        [[None, None]])
   \<and> amplitude_norm [[None, None]]
       \<lparr>base = \<lparr>buf = 0, shape = [2, 1, 1, 1, 1, 1]\<rparr>, axes = [5, 0, 1, 2, 3, 4]\<rparr> 0 \<noteq> Some 1"
  by (simp add: vector_to_amplitudes_def np_reshape_def np_transpose_def idiv_last_def upt_rec
      root_norms_def axis_sum_def inner_indices_def fsum_def fadd_def fsub_def fdouble_def
      abs_sq_def fsqrt_def fdiv_def amplitude_norm_def amplitude_sum_def view_shape_def
      view_item_def arg_of_def scalar_of_def)

text \<open>
  C10. The reshaper works in place. For a well-shaped array of eigenvectors the returned
  tensor is a view on the buffer of the argument, and after the call the argument itself
  holds the divided values: entry [n, r] of the caller's matrix is its old value divided by
  the square root of the norm of root r. No other buffer of the store changes.
\<close>

theorem vector_to_amplitudes_in_place:
  assumes "nocc \<noteq> []" and "list_all (\<lambda>i. i = no) nocc"
    and "nmo \<noteq> []" and "list_all (\<lambda>i. i = nm) nmo"
    and "no \<le> nm"
    and "shape vectors = [2 * length nocc * length nocc * no * (nm - no), R]"
    and "valid_array st vectors"
  shows "\<exists>res st'. vector_to_amplitudes st vectors nocc nmo = (Inr res, st')
           \<and> buf (base res) = buf vectors
           \<and> length st' = length st
           \<and> (\<forall>a. a \<noteq> buf vectors \<longrightarrow> st' ! a = st ! a)
           \<and> (\<forall>n r. n < 2 * length nocc * length nocc * no * (nm - no) \<and> r < R \<longrightarrow>
                 st' ! buf vectors ! ravel (shape vectors) [n, r]
                 = fdiv (st ! buf vectors ! ravel (shape vectors) [n, r])
                     (fsqrt (root_norms (st ! buf vectors)
                               [2, length nocc, length nocc, no, nm - no, R] ! r)))"
proof -
  let ?sh = "[2, length nocc, length nocc, no, nm - no, R]"
  let ?N = "2 * length nocc * length nocc * no * (nm - no)"
  let ?b = "st ! buf vectors"
  let ?s = "map fsqrt (root_norms ?b ?sh)"
  let ?res = "\<lparr>base = vectors\<lparr>shape := ?sh\<rparr>, axes = [5, 0, 1, 2, 3, 4]\<rparr>"
  let ?st = "st[buf vectors := idiv_last ?b R ?s]"
  have run: "vector_to_amplitudes st vectors nocc nmo = (Inr ?res, ?st)"
    by (rule vector_to_amplitudes_success[OF assms(1-6)])
  have bv: "buf vectors < length st" and lb: "length ?b = ?N * R"
    using assms(6,7) by (simp_all add: valid_array_def)
  have entryv: "?st ! buf vectors ! ravel (shape vectors) [n, r]
               = fdiv (?b ! ravel (shape vectors) [n, r]) (fsqrt (root_norms ?b ?sh ! r))"
    if "n < ?N" "r < R" for n r
    unfolding assms(6) by (rule normalized_entry[OF bv lb that]) simp
  have "buf (base ?res) = buf vectors" by simp
  moreover have "length ?st = length st" by simp
  moreover have "\<forall>a. a \<noteq> buf vectors \<longrightarrow> ?st ! a = st ! a" by simp
  ultimately show ?thesis using run entryv by blast
qed

theorem vector_to_amplitudes_in_place_witness:
  "\<exists>res. vector_to_amplitudes [[Some 3, Some 1]] \<lparr>buf = 0, shape = [2, 1]\<rparr> [1] [2]
            = (Inr res, [[Some (3 / 4), Some (1 / 4)]])
      \<and> buf (base res) = 0"
proof -
  have t: "root_norms ([[Some 3, Some 1]] ! 0) [2, 1, 1, 1, 1, 1] ! 0 = Some 16"
    by (simp add: root_norms_def axis_sum_def inner_indices_def fsum_def fadd_def fsub_def
        fdouble_def abs_sq_def)
  from vector_to_amplitudes_in_place [of "[1]" 1 "[2]" 2 "\<lparr>buf = 0, shape = [2, 1]\<rparr>" 1 "[[Some 3, Some 1]]"]
  obtain res st' where
    run: "vector_to_amplitudes [[Some 3, Some 1]] \<lparr>buf = 0, shape = [2, 1]\<rparr> [1] [2] = (Inr res, st')"
    and b: "buf (base res) = 0"
    and len: "length st' = 1"
    and entryv: "\<And>n r. n < 2 \<and> r < 1
         \<Longrightarrow> st' ! 0 ! ravel [2, 1] [n, r]
            = fdiv ([[Some 3, Some 1]] ! 0 ! ravel [2, 1] [n, r])
                (fsqrt (root_norms ([[Some 3, Some 1]] ! 0) [2, 1, 1, 1, 1, 1] ! r))"
    by (auto simp: valid_array_def)
  have c0: "st' ! 0 ! 0 = Some (3 / 4)"
    using entryv[of 0 0] t by (simp add: fsqrt_def fdiv_def sqrt16)
  have c1: "st' ! 0 ! 1 = Some (1 / 4)"
    using entryv[of 1 0] t by (simp add: fsqrt_def fdiv_def sqrt16)
  have "st' = [[Some (3 / 4), Some (1 / 4)]]"
  proof -
    have "vector_to_amplitudes [[Some 3, Some 1]] \<lparr>buf = 0, shape = [2, 1]\<rparr> [1] [2]
          = (Inr \<lparr>base = \<lparr>buf = 0, shape = [2, 1, 1, 1, 1, 1]\<rparr>, axes = [5, 0, 1, 2, 3, 4]\<rparr>,
             [idiv_last [Some 3, Some 1] 1 (map fsqrt (root_norms [Some 3, Some 1] [2, 1, 1, 1, 1, 1]))])"
      using vector_to_amplitudes_success[of "[1]" 1 "[2]" 2 "\<lparr>buf = 0, shape = [2, 1]\<rparr>" 1 "[[Some 3, Some 1]]"]
      by simp
    with run have "st' = [idiv_last [Some 3, Some 1] 1 (map fsqrt (root_norms [Some 3, Some 1] [2, 1, 1, 1, 1, 1]))]"
      by simp
    then obtain x y where st': "st' = [[x, y]]"
      by (simp add: idiv_last_def upt_rec)
    with c0 c1 show ?thesis by simp
  qed
  with run b show ?thesis by blast
qed

section \<open>Tensors and the eager cache\<close>

lemma length_concat_map_upt:
  "(\<And>i. i < n \<Longrightarrow> length (f i) = m) \<Longrightarrow> length (concat (map f [0..<n])) = n * m"
  by (induction n) auto

lemma nth_concat_map_upt:
  assumes "\<And>i. i < n \<Longrightarrow> length (f i) = m" and "i < n" and "j < m"
  shows "concat (map f [0..<n]) ! (i * m + j) = f i ! j"
  using assms
proof (induction n)
  case 0
  then show ?case by simp
next
  case (Suc n)
  have len: "length (concat (map f [0..<n])) = n * m"
    using Suc.prems(1) by (intro length_concat_map_upt) simp
  show ?case
  proof (cases "i < n")
    case True
    have "i * m + j < Suc i * m" using Suc.prems(3) by simp
    also have "\<dots> \<le> n * m" using True by (intro mult_le_mono1) simp
    finally have "i * m + j < n * m" .
    then show ?thesis
      using Suc.IH[OF _ True Suc.prems(3)] Suc.prems(1) len by (simp add: nth_append)
  next
    case False
    with Suc.prems(2) have "i = n" by simp
    then show ?thesis using len by (simp add: nth_append)
  qed
qed

lemma length_indices: "length (indices ds) = prod_list ds"
proof (induction ds)
  case Nil
  then show ?case by simp
next
  case (Cons d ds)
  have "length (concat (map (\<lambda>i. map ((#) i) (indices ds)) [0..<d])) = d * prod_list ds"
    by (rule length_concat_map_upt) (simp add: Cons.IH)
  then show ?case by simp
qed

lemma indices_range: "idx \<in> set (indices ds) \<Longrightarrow> list_all2 (<) idx ds"
  by (induction ds arbitrary: idx) auto

lemma indices_nth: "list_all2 (<) idx ds \<Longrightarrow> indices ds ! ravel ds idx = idx"
proof (induction ds arbitrary: idx)
  case Nil
  then show ?case by simp
next
  case (Cons d ds)
  then obtain i "is" where idx: "idx = i # is" and i: "i < d" and r: "list_all2 (<) is ds"
    by (cases idx) auto
  have rl: "ravel ds is < prod_list ds"
    by (rule ravel_less[OF r])
  have "concat (map (\<lambda>i. map ((#) i) (indices ds)) [0..<d]) ! (i * prod_list ds + ravel ds is)
        = map ((#) i) (indices ds) ! ravel ds is"
    by (rule nth_concat_map_upt) (simp_all add: length_indices i rl)
  also have "\<dots> = i # is"
    using rl Cons.IH[OF r] by (simp add: length_indices)
  finally show ?case by (simp add: idx)
qed

lemma item_tabulate: "list_all2 (<) idx ds \<Longrightarrow> item (tabulate ds f) idx = f idx"
proof -
  assume a: "list_all2 (<) idx ds"
  have "ravel ds idx < length (indices ds)"
    unfolding length_indices by (rule ravel_less[OF a])
  then show ?thesis
    using indices_nth[OF a] by (simp add: item_def tabulate_def)
qed

lemma tabulate_cong:
  "(\<And>idx. list_all2 (<) idx ds \<Longrightarrow> f idx = g idx) \<Longrightarrow> tabulate ds f = tabulate ds g"
  by (simp add: tabulate_def indices_range)

lemma sequence_map_Inr:
  "(\<And>x. x \<in> set xs \<Longrightarrow> f x = Inr (g x)) \<Longrightarrow> sequence (map f xs) = Inr (map g xs)"
  by (induction xs) auto

lemma length_ao2mo:
  "length (entries (ao2mo m (a, b, c, d) ks)) = prod_list [ncols a, ncols b, ncols c, ncols d]"
  by (simp only: ao2mo_def prod.case tensor.simps length_map length_indices)

lemma ao2mo_k_value:
  assumes "k0 < length (kpts (model self))" "k1 < length (kpts (model self))"
    "k2 < length (kpts (model self))" "k3 < length (kpts (model self))"
  shows "ao2mo_k self [c0, c1, c2, c3] [k0, k1, k2, k3]
         = Inr (swapaxes12
                 ((ao2mo (model self) (c0, c2, c1, c3)
                     (map (\<lambda>k. kpts (model self) ! k) [k0, k2, k1, k3]))
                  \<lparr>dims := [ncols c0, ncols c2, ncols c1, ncols c3]\<rparr>))"
proof -
  have s: "sequence (map (nth_err (kpts (model self))) [k0, k2, k1, k3])
           = Inr (map (\<lambda>k. kpts (model self) ! k) [k0, k2, k1, k3])"
    by (rule sequence_map_Inr) (use assms in \<open>auto simp: nth_err_def\<close>)
  show ?thesis
    unfolding ao2mo_k_def
    by (simp only: s list.case prod.case sum.case reshape_def length_ao2mo simp_thms if_True)
qed

lemma ao2mo_k_model: "model self' = model self \<Longrightarrow> ao2mo_k self' = ao2mo_k self"
  unfolding ao2mo_k_def fun_eq_iff by (intro allI) (erule ssubst, rule refl)

lemma cached_model: "model self' = model self \<Longrightarrow> cached self' = cached self"
  unfolding cached_def fun_eq_iff using ao2mo_k_model[of self' self] by simp

lemma fill_full_eri_k_result:
  assumes "length (mo_coeff (model self)) = length (kpts (model self))"
    and "\<And>k1 k2 k3. (k1, k2, k3) \<in> set ks \<Longrightarrow>
           k1 < length (kpts (model self)) \<and> k2 < length (kpts (model self))
           \<and> k3 < length (kpts (model self))
           \<and> kconserv self k1 k2 k3 < length (kpts (model self))"
  shows "fill_full_eri_k self ks =
           Inr (self\<lparr>full_eri_k := (\<lambda>key. if key \<in> key_of self ` set ks then Some (cached self key)
                                        else full_eri_k self key)\<rparr>)"
  using assms
proof (induction ks arbitrary: self)
  case Nil
  then show ?case by simp
next
  case (Cons k ks)
  obtain k1 k2 k3 where k: "k = (k1, k2, k3)" by (cases k) auto
  let ?n = "length (kpts (model self))"
  let ?k4 = "kconserv self k1 k2 k3"
  have r: "k1 < ?n" "k2 < ?n" "k3 < ?n" "?k4 < ?n"
    using Cons.prems(2)[of k1 k2 k3] by (simp_all add: k)
  have kc: "kconserv_at self k1 k2 k3 = Inr ?k4"
    using r by (simp add: kconserv_at_def)
  have sq: "sequence (map (nth_err (mo_coeff (model self))) [k1, k2, k3, ?k4])
            = Inr (map (\<lambda>k. mo_coeff (model self) ! k) [k1, k2, k3, ?k4])"
    by (rule sequence_map_Inr) (use r Cons.prems(1) in \<open>auto simp: nth_err_def\<close>)
  obtain t where t: "ao2mo_k self (map (\<lambda>k. mo_coeff (model self) ! k) [k1, k2, k3, ?k4]) [k1, k2, k3, ?k4] = Inr t"
    using ao2mo_k_value[OF r] by simp
  then have ct: "cached self (k1, k2, k3, ?k4) = t"
    by (simp add: cached_def)
  let ?self1 = "self\<lparr>full_eri_k := (full_eri_k self)((k1, k2, k3, ?k4) \<mapsto> t)\<rparr>"
  have step: "fill_full_eri_k self (k # ks) = fill_full_eri_k ?self1 ks"
    by (simp only: k fill_full_eri_k.simps kc sum.case sq t)
  have IH: "fill_full_eri_k ?self1 ks =
           Inr (?self1\<lparr>full_eri_k := (\<lambda>key. if key \<in> key_of ?self1 ` set ks then Some (cached ?self1 key)
                                        else full_eri_k ?self1 key)\<rparr>)"
    by (rule Cons.IH) (use Cons.prems in auto)
  have c1: "cached ?self1 = cached self" by (rule cached_model) simp
  have k1: "key_of ?self1 = key_of self" by (simp add: key_of_def fun_eq_iff)
  have fe: "(\<lambda>key. if key \<in> key_of self ` set ks then Some (cached self key)
               else full_eri_k ?self1 key)
        = (\<lambda>key. if key \<in> key_of self ` set (k # ks) then Some (cached self key)
               else full_eri_k self key)"
    using ct by (auto simp: fun_eq_iff k key_of_def)
  show ?case
    unfolding step IH c1 k1 fe by simp
qed

lemma set_loop_kkk: "set (loop_kkk n) = {(k1, k2, k3). k1 < n \<and> k2 < n \<and> k3 < n}"
  by (auto simp: loop_kkk_def image_iff)

lemma PhysERI_init_result:
  assumes "wf_model gk m"
  shows "PhysERI_init gk m =
           Inr \<lparr>cls = PhysERI, model = m, kconserv = (\<lambda>k1 k2 k3. gk m k1 k3 k2),
                full_eri_k = (\<lambda>key. case key of (k1, k2, k3, k4) \<Rightarrow>
                    if k1 < length (kpts m) \<and> k2 < length (kpts m) \<and> k3 < length (kpts m)
                       \<and> k4 = gk m k1 k3 k2
                    then Some (cached \<lparr>cls = PhysERI, model = m, kconserv = (\<lambda>k1 k2 k3. gk m k1 k3 k2),
                                      full_eri_k = Map.empty\<rparr> key)
                    else None)\<rparr>"
proof -
  let ?self = "\<lparr>cls = PhysERI, model = m, kconserv = (\<lambda>k1 k2 k3. gk m k1 k3 k2), full_eri_k = Map.empty\<rparr>"
  have a: "fill_full_eri_k ?self (loop_kkk (length (kpts m))) =
           Inr (?self\<lparr>full_eri_k := (\<lambda>key. if key \<in> key_of ?self ` set (loop_kkk (length (kpts m)))
                                        then Some (cached ?self key)
                                        else full_eri_k ?self key)\<rparr>)"
    by (rule fill_full_eri_k_result)
       (use assms in \<open>auto simp: wf_model_def Let_def set_loop_kkk\<close>)
  have b: "(key \<in> key_of ?self ` set (loop_kkk (length (kpts m))))
           = (case key of (k1, k2, k3, k4) \<Rightarrow>
                k1 < length (kpts m) \<and> k2 < length (kpts m) \<and> k3 < length (kpts m)
                \<and> k4 = gk m k1 k3 k2)" for key
    by (auto simp: set_loop_kkk key_of_def image_iff split: prod.splits)
  show ?thesis
    unfolding PhysERI_init_def a by (auto simp: b fun_eq_iff split: prod.splits)
qed

lemma card_triples: "card {(k1, k2, k3). k1 < n \<and> k2 < n \<and> k3 < n} = n ^ 3"
proof -
  have "{(k1, k2, k3). k1 < n \<and> k2 < n \<and> k3 < n} = {..<n} \<times> {..<n} \<times> {..<(n::nat)}"
    by auto
  then show ?thesis by (simp add: card_cartesian_product power3_eq_cube)
qed

lemma inj_key_of: "inj (key_of self)"
  by (auto simp: inj_on_def key_of_def)

lemma slices_value:
  assumes "\<And>k. k \<in> set ks \<Longrightarrow> k < length (PhysERI_nocc self)"
  shows "sequence (map (\<lambda>(i, kx).
                       map_sum id (\<lambda>n. if i = CHR ''o'' then UpTo n else From n)
                         (nth_err (PhysERI_nocc self) kx))
                     (zip itm ks))
         = Inr (map (\<lambda>(i, kx). if i = CHR ''o'' then UpTo (PhysERI_nocc self ! kx)
                                 else From (PhysERI_nocc self ! kx)) (zip itm ks))"
  by (rule sequence_map_Inr) (use assms in \<open>auto simp: nth_err_def dest: set_zip_rightD\<close>)

lemma zero_block_value:
  assumes "\<And>k. k \<in> set ks \<Longrightarrow> k < length (PhysERI_nocc self) \<and> k < length (PhysERI_nmo self)
             \<and> PhysERI_nocc self ! k \<le> PhysERI_nmo self ! k"
  shows "zero_block self itm ks =
           Inr \<lparr>dims = map (\<lambda>(i, kx). if i = CHR ''o'' then PhysERI_nocc self ! kx
                                       else PhysERI_nmo self ! kx - PhysERI_nocc self ! kx) (zip itm ks),
                entries = replicate
                  (prod_list (map (\<lambda>(i, kx). if i = CHR ''o'' then PhysERI_nocc self ! kx
                                       else PhysERI_nmo self ! kx - PhysERI_nocc self ! kx) (zip itm ks)))
                  (Some 0)\<rparr>"
proof -
  let ?g = "\<lambda>(i, kx). if i = CHR ''o'' then int (PhysERI_nocc self ! kx)
                       else int (PhysERI_nmo self ! kx) - int (PhysERI_nocc self ! kx)"
  let ?h = "\<lambda>(i, kx). if i = CHR ''o'' then PhysERI_nocc self ! kx
                       else PhysERI_nmo self ! kx - PhysERI_nocc self ! kx"
  have s: "sequence (map (\<lambda>(i, kx).
               if i = CHR ''o'' then map_sum id int (nth_err (PhysERI_nocc self) kx)
               else (case nth_err (PhysERI_nmo self) kx of
                       Inl e \<Rightarrow> Inl e
                     | Inr n \<Rightarrow> map_sum id (\<lambda>n\<^sub>o. int n - int n\<^sub>o) (nth_err (PhysERI_nocc self) kx)))
             (zip itm ks)) = Inr (map ?g (zip itm ks))"
    by (rule sequence_map_Inr) (use assms in \<open>auto simp: nth_err_def dest: set_zip_rightD\<close>)
  have nn: "list_all (\<lambda>d. 0 \<le> d) (map ?g (zip itm ks))"
    using assms by (auto simp: list_all_iff dest: set_zip_rightD)
  have mn: "map nat (map ?g (zip itm ks)) = map ?h (zip itm ks)"
    using assms by (auto dest!: set_zip_rightD)
  show ?thesis
    unfolding zero_block_def s sum.case zeros_def mn using nn by simp
qed

lemma PhysERI_init_fields:
  assumes "wf_model gk m"
  obtains p where "PhysERI_init gk m = Inr p" and "cls p = PhysERI" and "model p = m"
    and "kconserv p = (\<lambda>k1 k2 k3. gk m k1 k3 k2)"
    and "\<And>k1 k2 k3 k4. full_eri_k p (k1, k2, k3, k4) =
           (if k1 < length (kpts m) \<and> k2 < length (kpts m) \<and> k3 < length (kpts m)
               \<and> k4 = gk m k1 k3 k2
            then Some (cached p (k1, k2, k3, k4)) else None)"
proof -
  let ?p0 = "\<lparr>cls = PhysERI, model = m, kconserv = (\<lambda>k1 k2 k3. gk m k1 k3 k2), full_eri_k = Map.empty\<rparr>"
  define p where "p = ?p0\<lparr>full_eri_k := (\<lambda>key. case key of (k1, k2, k3, k4) \<Rightarrow>
                    if k1 < length (kpts m) \<and> k2 < length (kpts m) \<and> k3 < length (kpts m)
                       \<and> k4 = gk m k1 k3 k2
                    then Some (cached ?p0 key) else None)\<rparr>"
  have run: "PhysERI_init gk m = Inr p"
    unfolding p_def PhysERI_init_result[OF assms] by simp
  have cm: "cached p = cached ?p0" by (rule cached_model) (simp add: p_def)
  have "full_eri_k p (k1, k2, k3, k4) =
           (if k1 < length (kpts m) \<and> k2 < length (kpts m) \<and> k3 < length (kpts m)
               \<and> k4 = gk m k1 k3 k2
            then Some (cached p (k1, k2, k3, k4)) else None)" for k1 k2 k3 k4
    unfolding cm by (simp add: p_def)
  moreover have "cls p = PhysERI" "model p = m" "kconserv p = (\<lambda>k1 k2 k3. gk m k1 k3 k2)"
    by (simp_all add: p_def)
  ultimately show ?thesis using that run by blast
qed

lemma PhysERI_calc_block_hit:
  assumes "cls p = PhysERI" and "full_eri_k p (k1, k2, k3, k4) = Some t"
    and "\<And>k. k \<in> set [k1, k2, k3, k4] \<Longrightarrow> k < length (PhysERI_nocc p)"
  shows "calc_block p itm (k1, k2, k3, k4)
         = Inr (getitem t (map (\<lambda>(i, kx). if i = CHR ''o'' then UpTo (PhysERI_nocc p ! kx)
                                            else From (PhysERI_nocc p ! kx))
                              (zip itm [k1, k2, k3, k4])))"
proof -
  have s: "sequence (map (\<lambda>(i, kx).
                       map_sum id (\<lambda>n. if i = CHR ''o'' then UpTo n else From n)
                         (nth_err (PhysERI_nocc p) kx))
                     (zip itm [k1, k2, k3, k4]))
         = Inr (map (\<lambda>(i, kx). if i = CHR ''o'' then UpTo (PhysERI_nocc p ! kx)
                                 else From (PhysERI_nocc p ! kx)) (zip itm [k1, k2, k3, k4]))"
    by (rule slices_value) (rule assms(3))
  show ?thesis
    by (simp only: calc_block_def PhysERI_calc_block_def assms(1) provider_class.case prod.case
        assms(2) option.case s sum.case)
qed

lemma PhysERI_calc_block_miss:
  assumes "cls p = PhysERI" and "full_eri_k p (k1, k2, k3, k4) = None"
  shows "calc_block p itm (k1, k2, k3, k4) = zero_block p itm [k1, k2, k3, k4]"
  unfolding calc_block_def PhysERI_calc_block_def assms(1) provider_class.case prod.case
    assms(2) option.case ..

lemma PhysERI4_calc_block_miss:
  assumes "cls p \<noteq> PhysERI" and "kconserv_at p k1 k2 k3 = Inr kc" and "kc \<noteq> k4"
  shows "calc_block p itm (k1, k2, k3, k4) = zero_block p itm [k1, k2, k3, k4]"
  using assms by (cases "cls p") (simp_all add: calc_block_def PhysERI4_calc_block_def)



text \<open>
  C6. For a well-formed model with N k-points the constructor of the eager provider
  succeeds, and its cache has exactly the keys (k1, k2, k3, kconserv[k1, k2, k3]) of the
  N^3 ordered triples, one entry per triple; every key satisfies the conservation map; the
  entry is the full transform for that quadruple; and block retrieval at a cached
  quadruple returns the occupied/virtual slice of the cached tensor. Retrieval is a function
  of the provider that returns no provider: nothing after the constructor writes the cache.
\<close>

theorem PhysERI_init_cache:
  assumes "wf_model gk m"
  shows "\<exists>p. PhysERI_init gk m = Inr p
           \<and> dom (full_eri_k p) = key_of p ` set (loop_kkk (length (kpts m)))
           \<and> set (loop_kkk (length (kpts m)))
               = {(k1, k2, k3). k1 < length (kpts m) \<and> k2 < length (kpts m) \<and> k3 < length (kpts m)}
           \<and> inj (key_of p)
           \<and> card (dom (full_eri_k p)) = length (kpts m) ^ 3
           \<and> (\<forall>k1 k2 k3 k4. (k1, k2, k3, k4) \<in> dom (full_eri_k p)
                  \<longrightarrow> kconserv_at p k1 k2 k3 = Inr k4)
           \<and> (\<forall>key \<in> dom (full_eri_k p). full_eri_k p key = Some (cached p key))
           \<and> (\<forall>itm k1 k2 k3 k4 t. full_eri_k p (k1, k2, k3, k4) = Some t
                  \<longrightarrow> calc_block p itm (k1, k2, k3, k4)
                      = Inr (getitem t
                               (map (\<lambda>(i, kx). if i = CHR ''o'' then UpTo (k_nocc m ! kx)
                                                else From (k_nocc m ! kx))
                                  (zip itm [k1, k2, k3, k4]))))"
proof -
  let ?n = "length (kpts m)"
  from PhysERI_init_fields[OF assms] obtain p where
    run: "PhysERI_init gk m = Inr p" and c: "cls p = PhysERI" and mp: "model p = m"
    and kp: "kconserv p = (\<lambda>k1 k2 k3. gk m k1 k3 k2)"
    and fe: "\<And>k1 k2 k3 k4. full_eri_k p (k1, k2, k3, k4) =
           (if k1 < ?n \<and> k2 < ?n \<and> k3 < ?n \<and> k4 = gk m k1 k3 k2
            then Some (cached p (k1, k2, k3, k4)) else None)"
    by blast
  have wf: "length (mo_occ m) = ?n" "\<And>k1 k2 k3. k1 < ?n \<Longrightarrow> k2 < ?n \<Longrightarrow> k3 < ?n \<Longrightarrow> gk m k1 k2 k3 < ?n"
    using assms by (simp_all add: wf_model_def Let_def)
  have indom: "((k1, k2, k3, k4) \<in> dom (full_eri_k p))
               = (k1 < ?n \<and> k2 < ?n \<and> k3 < ?n \<and> k4 = gk m k1 k3 k2)" for k1 k2 k3 k4
    by (simp add: dom_def fe)
  have d: "dom (full_eri_k p) = key_of p ` set (loop_kkk ?n)"
  proof (rule set_eqI)
    fix key :: kquad
    obtain k1 k2 k3 k4 where key: "key = (k1, k2, k3, k4)" by (cases key) auto
    have "(key \<in> key_of p ` set (loop_kkk ?n))
          = (k1 < ?n \<and> k2 < ?n \<and> k3 < ?n \<and> k4 = gk m k1 k3 k2)"
      unfolding key set_loop_kkk by (auto simp: key_of_def kp image_iff)
    then show "(key \<in> dom (full_eri_k p)) = (key \<in> key_of p ` set (loop_kkk ?n))"
      unfolding key indom by simp
  qed
  have i: "inj (key_of p)" by (rule inj_key_of)
  have cd: "card (dom (full_eri_k p)) = ?n ^ 3"
    unfolding d set_loop_kkk
    using card_image[OF inj_on_subset[OF i subset_UNIV], of "{(k1, k2, k3). k1 < ?n \<and> k2 < ?n \<and> k3 < ?n}"]
    by (simp only: card_triples)
  have kc: "kconserv_at p k1 k2 k3 = Inr k4" if "(k1, k2, k3, k4) \<in> dom (full_eri_k p)" for k1 k2 k3 k4
    using that unfolding indom by (simp add: kconserv_at_def mp kp)
  have v: "\<forall>key \<in> dom (full_eri_k p). full_eri_k p key = Some (cached p key)"
  proof
    fix key assume a: "key \<in> dom (full_eri_k p)"
    obtain k1 k2 k3 k4 where key: "key = (k1, k2, k3, k4)" by (cases key) auto
    from a show "full_eri_k p key = Some (cached p key)"
      unfolding key indom by (simp add: fe)
  qed
  have blk: "calc_block p itm (k1, k2, k3, k4)
             = Inr (getitem t (map (\<lambda>(i, kx). if i = CHR ''o'' then UpTo (k_nocc m ! kx)
                                                else From (k_nocc m ! kx))
                                  (zip itm [k1, k2, k3, k4])))"
    if h: "full_eri_k p (k1, k2, k3, k4) = Some t" for itm k1 k2 k3 k4 t
  proof -
    from h have r: "k1 < ?n" "k2 < ?n" "k3 < ?n" "k4 = gk m k1 k3 k2"
      unfolding fe by (simp_all split: if_splits)
    then have "k4 < ?n" using wf(2) by simp
    with r have "\<And>k. k \<in> set [k1, k2, k3, k4] \<Longrightarrow> k < length (PhysERI_nocc p)"
      using wf(1) by (auto simp: PhysERI_nocc_def k_nocc_def mp)
    from PhysERI_calc_block_hit[OF c h this, of itm]
    show ?thesis by (simp only: PhysERI_nocc_def mp)
  qed
  have kc': "\<forall>k1 k2 k3 k4. (k1, k2, k3, k4) \<in> dom (full_eri_k p)
                  \<longrightarrow> kconserv_at p k1 k2 k3 = Inr k4"
    using kc by blast
  have blk': "\<forall>itm k1 k2 k3 k4 t. full_eri_k p (k1, k2, k3, k4) = Some t
                  \<longrightarrow> calc_block p itm (k1, k2, k3, k4)
                      = Inr (getitem t
                               (map (\<lambda>(i, kx). if i = CHR ''o'' then UpTo (k_nocc m ! kx)
                                                else From (k_nocc m ! kx))
                                  (zip itm [k1, k2, k3, k4])))"
    using blk by blast
  show ?thesis
    by (intro exI[of _ p] conjI) (rule run d set_loop_kkk i cd kc' v blk')+
qed

lemma wf_two_point: "wf_model two_point_kconserv two_point_model"
proof -
  have "(k1 + k2 + k3) mod 2 < Suc (Suc 0)" for k1 k2 k3 :: nat
    by simp
  then show ?thesis
    by (simp add: wf_model_def two_point_model_def two_point_kconserv_def)
qed

theorem PhysERI_init_cache_witness:
  "\<exists>p. PhysERI_init two_point_kconserv two_point_model = Inr p
      \<and> card (dom (full_eri_k p)) = 8
      \<and> (0, 1, 0, 1) \<in> dom (full_eri_k p)
      \<and> (0, 1, 0, 0) \<notin> dom (full_eri_k p)"
proof -
  from PhysERI_init_cache[OF wf_two_point] obtain p where
    run: "PhysERI_init two_point_kconserv two_point_model = Inr p"
    and d: "dom (full_eri_k p) = key_of p ` set (loop_kkk (length (kpts two_point_model)))"
    and c: "card (dom (full_eri_k p)) = length (kpts two_point_model) ^ 3"
    and kc: "\<forall>k1 k2 k3 k4. (k1, k2, k3, k4) \<in> dom (full_eri_k p)
                  \<longrightarrow> kconserv_at p k1 k2 k3 = Inr k4"
    by blast
  have kp: "kconserv p = (\<lambda>k1 k2 k3. two_point_kconserv two_point_model k1 k3 k2)"
    using run PhysERI_init_result[OF wf_two_point] by auto
  have "(0, 1, 0, 1) \<in> dom (full_eri_k p)"
    unfolding d set_loop_kkk by (auto simp: key_of_def kp image_iff two_point_kconserv_def two_point_model_def)
  moreover have "(0, 1, 0, 0) \<notin> dom (full_eri_k p)"
    unfolding d set_loop_kkk by (auto simp: key_of_def kp image_iff two_point_kconserv_def two_point_model_def)
  moreover have "card (dom (full_eri_k p)) = 8"
    using c by (simp add: two_point_model_def power3_eq_cube)
  ultimately show ?thesis using run by blast
qed

text \<open>
  C3. For a well-formed model, a quadruple of k-point indices that misses conservation
  (kconserv[k1, k2, k3] is not k4) and occupied counts that do not exceed the orbital
  counts, block retrieval of each of the three providers returns, without raising, the
  all-zero tensor whose axis for letter i and k-point k has length nocc[k] when i is 'o'
  and nmo[k] - nocc[k] otherwise.
\<close>

theorem calc_block_conservation_miss:
  assumes "wf_model gk m"
    and "k1 < length (kpts m)" "k2 < length (kpts m)" "k3 < length (kpts m)" "k4 < length (kpts m)"
    and "gk m k1 k3 k2 \<noteq> k4"
    and "k_nocc m ! k1 \<le> k_nmo m ! k1" "k_nocc m ! k2 \<le> k_nmo m ! k2"
        "k_nocc m ! k3 \<le> k_nmo m ! k3" "k_nocc m ! k4 \<le> k_nmo m ! k4"
    and "sh = map (\<lambda>(i, kx). if i = CHR ''o'' then k_nocc m ! kx else k_nmo m ! kx - k_nocc m ! kx)
                 (zip itm [k1, k2, k3, k4])"
    and "z = \<lparr>dims = sh, entries = replicate (prod_list sh) (Some 0)\<rparr>"
  shows "(\<exists>p. PhysERI_init gk m = Inr p \<and> kconserv_at p k1 k2 k3 = Inr (gk m k1 k3 k2)
              \<and> calc_block p itm (k1, k2, k3, k4) = Inr z)
         \<and> kconserv_at (PhysERI4_init gk m) k1 k2 k3 = Inr (gk m k1 k3 k2)
         \<and> calc_block (PhysERI4_init gk m) itm (k1, k2, k3, k4) = Inr z
         \<and> kconserv_at (PhysERI8_init gk m) k1 k2 k3 = Inr (gk m k1 k3 k2)
         \<and> calc_block (PhysERI8_init gk m) itm (k1, k2, k3, k4) = Inr z"
proof -
  let ?n = "length (kpts m)"
  have wf: "length (mo_occ m) = ?n" "length (mo_coeff m) = ?n"
    using assms(1) by (simp_all add: wf_model_def Let_def)
  have zb: "zero_block p itm [k1, k2, k3, k4] = Inr z" if "model p = m" for p
  proof -
    have "\<And>k. k \<in> set [k1, k2, k3, k4] \<Longrightarrow> k < length (PhysERI_nocc p) \<and> k < length (PhysERI_nmo p)
             \<and> PhysERI_nocc p ! k \<le> PhysERI_nmo p ! k"
      using assms(2-5,7-10) wf
      by (auto simp: PhysERI_nocc_def PhysERI_nmo_def that k_nocc_def k_nmo_def)
    from zero_block_value[of "[k1, k2, k3, k4]" p itm, OF this]
    show ?thesis
      by (simp only: PhysERI_nocc_def PhysERI_nmo_def that assms(11)[symmetric] assms(12)[symmetric])
  qed
  have kca: "kconserv_at p k1 k2 k3 = Inr (gk m k1 k3 k2)"
    if "model p = m" "kconserv p = (\<lambda>k1 k2 k3. gk m k1 k3 k2)" for p
    using assms(2-4) that by (simp add: kconserv_at_def)
  from PhysERI_init_fields[OF assms(1)] obtain p where
    run: "PhysERI_init gk m = Inr p" and c: "cls p = PhysERI" and mp: "model p = m"
    and kp: "kconserv p = (\<lambda>k1 k2 k3. gk m k1 k3 k2)"
    and fe: "\<And>k1 k2 k3 k4. full_eri_k p (k1, k2, k3, k4) =
           (if k1 < ?n \<and> k2 < ?n \<and> k3 < ?n \<and> k4 = gk m k1 k3 k2
            then Some (cached p (k1, k2, k3, k4)) else None)"
    by blast
  have none: "full_eri_k p (k1, k2, k3, k4) = None"
    unfolding fe using assms(6) by simp
  have e1: "calc_block p itm (k1, k2, k3, k4) = Inr z"
    unfolding PhysERI_calc_block_miss[OF c none] by (rule zb[OF mp])
  have m4: "model (PhysERI4_init gk m) = m" "kconserv (PhysERI4_init gk m) = (\<lambda>k1 k2 k3. gk m k1 k3 k2)"
    "cls (PhysERI4_init gk m) \<noteq> PhysERI"
    by (simp_all add: PhysERI4_init_def)
  have m8: "model (PhysERI8_init gk m) = m" "kconserv (PhysERI8_init gk m) = (\<lambda>k1 k2 k3. gk m k1 k3 k2)"
    "cls (PhysERI8_init gk m) \<noteq> PhysERI"
    by (simp_all add: PhysERI8_init_def PhysERI4_init_def)
  have e4: "calc_block (PhysERI4_init gk m) itm (k1, k2, k3, k4) = Inr z"
    unfolding PhysERI4_calc_block_miss[OF m4(3) kca[OF m4(1,2)] assms(6)] by (rule zb[OF m4(1)])
  have e8: "calc_block (PhysERI8_init gk m) itm (k1, k2, k3, k4) = Inr z"
    unfolding PhysERI4_calc_block_miss[OF m8(3) kca[OF m8(1,2)] assms(6)] by (rule zb[OF m8(1)])
  have "\<exists>p. PhysERI_init gk m = Inr p \<and> kconserv_at p k1 k2 k3 = Inr (gk m k1 k3 k2)
              \<and> calc_block p itm (k1, k2, k3, k4) = Inr z"
    by (intro exI[of _ p] conjI) (rule run kca[OF mp kp] e1)+
  then show ?thesis
    by (intro conjI) (assumption | rule kca[OF m4(1,2)] e4 kca[OF m8(1,2)] e8)+
qed

theorem calc_block_conservation_miss_witness:
  "(\<exists>p. PhysERI_init two_point_kconserv two_point_model = Inr p
        \<and> kconserv_at p 0 0 0 = Inr 0
        \<and> calc_block p ''ovov'' (0, 0, 0, 1) = Inr \<lparr>dims = [1, 1, 1, 1], entries = [Some 0]\<rparr>)
   \<and> calc_block (PhysERI4_init two_point_kconserv two_point_model) ''ovov'' (0, 0, 0, 1)
       = Inr \<lparr>dims = [1, 1, 1, 1], entries = [Some 0]\<rparr>
   \<and> calc_block (PhysERI8_init two_point_kconserv two_point_model) ''ovov'' (0, 0, 0, 1)
       = Inr \<lparr>dims = [1, 1, 1, 1], entries = [Some 0]\<rparr>"
  using calc_block_conservation_miss[OF wf_two_point, of 0 0 0 1 "[1, 1, 1, 1]" "''ovov''"
      "\<lparr>dims = [1, 1, 1, 1], entries = [Some 0]\<rparr>"]
  by (simp add: two_point_model_def two_point_kconserv_def k_nocc_def k_nmo_def)

section \<open>Agreement of the providers\<close>

lemma column_take_cols:
  assumes "p < min n (ncols c)"
  shows "column (take_cols c n) p = column c p"
proof -
  let ?m = "min n (ncols c)"
  have "elems (take_cols c n) ! (u * ?m + p) = elems c ! (u * ncols c + p)" if "u < nrows c" for u
  proof -
    have "concat (map (\<lambda>u. map (\<lambda>p. elems c ! (u * ncols c + p)) [0..<?m]) [0..<nrows c]) ! (u * ?m + p)
          = map (\<lambda>p. elems c ! (u * ncols c + p)) [0..<?m] ! p"
      by (rule nth_concat_map_upt) (use that assms in simp_all)
    then show ?thesis using assms by (simp add: take_cols_def)
  qed
  then show ?thesis
    by (simp add: column_def take_cols_def)
qed

lemma column_drop_cols:
  assumes "p < ncols c - n"
  shows "column (drop_cols c n) p = column c (n + p)"
proof -
  let ?m = "ncols c - n"
  have "elems (drop_cols c n) ! (u * ?m + p) = elems c ! (u * ncols c + (n + p))" if "u < nrows c" for u
  proof -
    have "concat (map (\<lambda>u. map (\<lambda>p. elems c ! (u * ncols c + (n + p))) [0..<?m]) [0..<nrows c]) ! (u * ?m + p)
          = map (\<lambda>p. elems c ! (u * ncols c + (n + p))) [0..<?m] ! p"
      by (rule nth_concat_map_upt) (simp_all add: that assms)
    then show ?thesis using assms by (simp add: drop_cols_def)
  qed
  then show ?thesis
    by (simp add: column_def drop_cols_def)
qed

lemma ncols_restrict: "ncols (restrict_cols i n c) = slice_len (ov_slice i n) (ncols c)"
  by (simp add: restrict_cols_def ov_slice_def take_cols_def drop_cols_def)

lemma column_restrict:
  "x < slice_len (ov_slice i n) (ncols c) \<Longrightarrow>
   column (restrict_cols i n c) x = column c (slice_start (ov_slice i n) + x)"
  by (cases "i = CHR ''o''") (simp_all add: restrict_cols_def ov_slice_def column_take_cols column_drop_cols)

lemma list_all2_four:
  "list_all2 P idx [a, b, c, d] \<longleftrightarrow> (\<exists>p q r s. idx = [p, q, r, s] \<and> P p a \<and> P q b \<and> P r c \<and> P s d)"
  by (auto simp: list_all2_Cons2)

lemma ao2mo_k_tabulate:
  assumes "k0 < length (kpts (model self))" "k1 < length (kpts (model self))"
    "k2 < length (kpts (model self))" "k3 < length (kpts (model self))"
  shows "ao2mo_k self [c0, c1, c2, c3] [k0, k1, k2, k3]
         = Inr (tabulate [ncols c0, ncols c1, ncols c2, ncols c3]
                  (orbital_integral (model self)
                     (map (\<lambda>k. kpts (model self) ! k) [k0, k2, k1, k3]) [c0, c1, c2, c3]))"
proof -
  let ?ks = "map (\<lambda>k. kpts (model self) ! k) [k0, k2, k1, k3]"
  let ?F = "\<lambda>idx. with_df (model self) ?ks (column c0 (idx ! 0)) (column c2 (idx ! 1))
                                  (column c1 (idx ! 2)) (column c3 (idx ! 3))"
  have a: "(ao2mo (model self) (c0, c2, c1, c3) ?ks)\<lparr>dims := [ncols c0, ncols c2, ncols c1, ncols c3]\<rparr>
           = tabulate [ncols c0, ncols c2, ncols c1, ncols c3] ?F"
    by (simp add: ao2mo_def tabulate_def)
  have b: "swapaxes12 (tabulate [ncols c0, ncols c2, ncols c1, ncols c3] ?F)
           = tabulate [ncols c0, ncols c1, ncols c2, ncols c3]
               (\<lambda>idx. item (tabulate [ncols c0, ncols c2, ncols c1, ncols c3] ?F) (swap12 idx))"
    by (simp add: swapaxes12_def tabulate_def)
  have c: "tabulate [ncols c0, ncols c1, ncols c2, ncols c3]
               (\<lambda>idx. item (tabulate [ncols c0, ncols c2, ncols c1, ncols c3] ?F) (swap12 idx))
           = tabulate [ncols c0, ncols c1, ncols c2, ncols c3]
               (orbital_integral (model self) ?ks [c0, c1, c2, c3])"
  proof (rule tabulate_cong)
    fix idx assume "list_all2 (<) idx [ncols c0, ncols c1, ncols c2, ncols c3]"
    then obtain p q r s where idx: "idx = [p, q, r, s]"
      and r: "p < ncols c0" "q < ncols c1" "r < ncols c2" "s < ncols c3"
      unfolding list_all2_four by blast
    have "item (tabulate [ncols c0, ncols c2, ncols c1, ncols c3] ?F) [p, r, q, s] = ?F [p, r, q, s]"
      by (rule item_tabulate) (simp add: r)
    then show "item (tabulate [ncols c0, ncols c2, ncols c1, ncols c3] ?F) (swap12 idx)
               = orbital_integral (model self) ?ks [c0, c1, c2, c3] idx"
      by (simp add: idx orbital_integral_def)
  qed
  show ?thesis
    unfolding ao2mo_k_value[OF assms] a b c ..
qed

lemma slice_in_range:
  "length sl = length ds \<Longrightarrow> list_all2 (<) idx (map2 slice_len sl ds)
   \<Longrightarrow> list_all2 (<) (map2 (+) (map slice_start sl) idx) ds"
proof (induction sl ds arbitrary: idx rule: list_induct2)
  case Nil
  then show ?case by simp
next
  case (Cons s sl d ds)
  then obtain i "is" where idx: "idx = i # is" and i: "i < slice_len s d"
    and r: "list_all2 (<) is (map2 slice_len sl ds)"
    by (cases idx) auto
  have "slice_start s + i < d" using i by (cases s) auto
  with Cons.IH[OF r] show ?case by (simp add: idx)
qed

lemma getitem_tabulate:
  assumes "length sl = length ds"
  shows "getitem (tabulate ds f) sl
         = tabulate (map2 slice_len sl ds) (\<lambda>idx. f (map2 (+) (map slice_start sl) idx))"
proof -
  have d: "dims (tabulate ds f) = ds" by (simp add: tabulate_def)
  have "tabulate (map2 slice_len sl ds) (\<lambda>idx. item (tabulate ds f) (map2 (+) (map slice_start sl) idx))
        = tabulate (map2 slice_len sl ds) (\<lambda>idx. f (map2 (+) (map slice_start sl) idx))"
    by (rule tabulate_cong) (rule item_tabulate, rule slice_in_range[OF assms])
  then show ?thesis
    unfolding getitem_def d Let_def using assms by simp
qed

lemma PhysERI4_calc_block_hit:
  assumes "cls p \<noteq> PhysERI" and "kconserv_at p k1 k2 k3 = Inr k4"
    and "\<And>k. k \<in> set [k1, k2, k3, k4] \<Longrightarrow>
            k < length (mo_coeff (model p)) \<and> k < length (PhysERI_nocc p)"
  shows "calc_block p itm (k1, k2, k3, k4)
         = ao2mo_k p (map (\<lambda>(i, kx). restrict_cols i (PhysERI_nocc p ! kx) (mo_coeff (model p) ! kx))
                        (zip itm [k1, k2, k3, k4])) [k1, k2, k3, k4]"
proof -
  have s: "sequence (map (\<lambda>(i, kx).
                         case nth_err (mo_coeff (model p)) kx of
                           Inl e \<Rightarrow> Inl e
                         | Inr c \<Rightarrow>
                             map_sum id (\<lambda>n. if i = CHR ''o'' then take_cols c n else drop_cols c n)
                               (nth_err (PhysERI_nocc p) kx))
                       (zip itm [k1, k2, k3, k4]))
           = Inr (map (\<lambda>(i, kx). restrict_cols i (PhysERI_nocc p ! kx) (mo_coeff (model p) ! kx))
                        (zip itm [k1, k2, k3, k4]))"
  proof (rule sequence_map_Inr)
    fix x assume x: "x \<in> set (zip itm [k1, k2, k3, k4])"
    obtain i kx where xe: "x = (i, kx)" by (cases x) auto
    from x have "kx \<in> set [k1, k2, k3, k4]"
      unfolding xe by (rule set_zip_rightD)
    from assms(3)[OF this]
    show "(case x of (i, kx) \<Rightarrow>
              (case nth_err (mo_coeff (model p)) kx of
                Inl e \<Rightarrow> Inl e
              | Inr c \<Rightarrow>
                  map_sum id (\<lambda>n. if i = CHR ''o'' then take_cols c n else drop_cols c n)
                    (nth_err (PhysERI_nocc p) kx)))
          = Inr (case x of (i, kx) \<Rightarrow>
                   restrict_cols i (PhysERI_nocc p ! kx) (mo_coeff (model p) ! kx))"
      by (simp add: xe nth_err_def restrict_cols_def)
  qed
  have "PhysERI4_calc_block p itm (k1, k2, k3, k4)
        = ao2mo_k p (map (\<lambda>(i, kx). restrict_cols i (PhysERI_nocc p ! kx) (mo_coeff (model p) ! kx))
                        (zip itm [k1, k2, k3, k4])) [k1, k2, k3, k4]"
    by (simp only: PhysERI4_calc_block_def prod.case assms(2) sum.case if_True simp_thms s)
  then show ?thesis
    using assms(1) by (cases "cls p") (simp_all add: calc_block_def)
qed

lemma restricted_integral:
  assumes "list_all2 (<) idx
             [slice_len (ov_slice i1 n1) (ncols c1), slice_len (ov_slice i2 n2) (ncols c2),
              slice_len (ov_slice i3 n3) (ncols c3), slice_len (ov_slice i4 n4) (ncols c4)]"
  shows "orbital_integral m ks [c1, c2, c3, c4]
           (map2 (+) (map slice_start [ov_slice i1 n1, ov_slice i2 n2, ov_slice i3 n3, ov_slice i4 n4]) idx)
         = orbital_integral m ks
             [restrict_cols i1 n1 c1, restrict_cols i2 n2 c2, restrict_cols i3 n3 c3, restrict_cols i4 n4 c4]
             idx"
proof -
  from assms obtain p q r s where idx: "idx = [p, q, r, s]"
    and r: "p < slice_len (ov_slice i1 n1) (ncols c1)" "q < slice_len (ov_slice i2 n2) (ncols c2)"
      "r < slice_len (ov_slice i3 n3) (ncols c3)" "s < slice_len (ov_slice i4 n4) (ncols c4)"
    unfolding list_all2_four by blast
  show ?thesis
    by (simp add: idx orbital_integral_def column_restrict[OF r(1)] column_restrict[OF r(2)]
        column_restrict[OF r(3)] column_restrict[OF r(4)])
qed

lemma eager_slice_is_restricted_transform:
  "getitem (tabulate [ncols c1, ncols c2, ncols c3, ncols c4] (orbital_integral m ks [c1, c2, c3, c4]))
     [ov_slice i1 n1, ov_slice i2 n2, ov_slice i3 n3, ov_slice i4 n4]
   = tabulate [ncols (restrict_cols i1 n1 c1), ncols (restrict_cols i2 n2 c2),
               ncols (restrict_cols i3 n3 c3), ncols (restrict_cols i4 n4 c4)]
       (orbital_integral m ks
          [restrict_cols i1 n1 c1, restrict_cols i2 n2 c2, restrict_cols i3 n3 c3, restrict_cols i4 n4 c4])"
proof -
  let ?sl = "[ov_slice i1 n1, ov_slice i2 n2, ov_slice i3 n3, ov_slice i4 n4]"
  let ?ds = "[ncols c1, ncols c2, ncols c3, ncols c4]"
  have g: "getitem (tabulate ?ds (orbital_integral m ks [c1, c2, c3, c4])) ?sl
           = tabulate (map2 slice_len ?sl ?ds)
               (\<lambda>idx. orbital_integral m ks [c1, c2, c3, c4] (map2 (+) (map slice_start ?sl) idx))"
    by (rule getitem_tabulate) simp
  have d: "map2 slice_len ?sl ?ds
           = [slice_len (ov_slice i1 n1) (ncols c1), slice_len (ov_slice i2 n2) (ncols c2),
              slice_len (ov_slice i3 n3) (ncols c3), slice_len (ov_slice i4 n4) (ncols c4)]"
    by simp
  show ?thesis
    unfolding g d ncols_restrict
    by (rule tabulate_cong) (rule restricted_integral)
qed

text \<open>
  C2. The backend transform is taken entry by entry: each entry of its result is the
  integral of one column of each of the four coefficient sets. Then, for a well-formed
  model, a four-letter pattern and a conserving quadruple of k-point indices, the slice
  that the eager provider takes from its cached full transform is exactly the block that
  the 4-fold (and the 8-fold) provider computes from the occupied/virtual column slices of
  the coefficients.
\<close>

theorem calc_block_providers_agree:
  assumes "wf_model gk m"
    and "k1 < length (kpts m)" "k2 < length (kpts m)" "k3 < length (kpts m)" "k4 < length (kpts m)"
    and "gk m k1 k3 k2 = k4"
    and "length itm = 4"
  shows "\<exists>p t. PhysERI_init gk m = Inr p
           \<and> kconserv_at p k1 k2 k3 = Inr k4
           \<and> calc_block p itm (k1, k2, k3, k4) = Inr t
           \<and> calc_block (PhysERI4_init gk m) itm (k1, k2, k3, k4) = Inr t
           \<and> calc_block (PhysERI8_init gk m) itm (k1, k2, k3, k4) = Inr t"
proof -
  let ?n = "length (kpts m)"
  obtain i1 i2 i3 i4 where itm: "itm = [i1, i2, i3, i4]"
    using assms(7) by (auto simp: length_Suc_conv eval_nat_numeral)
  have wf: "length (mo_occ m) = ?n" "length (mo_coeff m) = ?n"
    using assms(1) by (simp_all add: wf_model_def Let_def)
  define c1 c2 c3 c4 where c: "c1 = mo_coeff m ! k1" "c2 = mo_coeff m ! k2"
    "c3 = mo_coeff m ! k3" "c4 = mo_coeff m ! k4"
  define n1 n2 n3 n4 where n: "n1 = k_nocc m ! k1" "n2 = k_nocc m ! k2"
    "n3 = k_nocc m ! k3" "n4 = k_nocc m ! k4"
  define ks where "ks = map (\<lambda>k. kpts m ! k) [k1, k3, k2, k4]"
  define t where "t = tabulate [ncols (restrict_cols i1 n1 c1), ncols (restrict_cols i2 n2 c2),
               ncols (restrict_cols i3 n3 c3), ncols (restrict_cols i4 n4 c4)]
       (orbital_integral m ks
          [restrict_cols i1 n1 c1, restrict_cols i2 n2 c2, restrict_cols i3 n3 c3, restrict_cols i4 n4 c4])"
  have rng: "k < length (mo_coeff m) \<and> k < length (k_nocc m)" if "k \<in> set [k1, k2, k3, k4]" for k
    using that assms(2-5) wf by (auto simp: k_nocc_def)
  \<comment> \<open>the lazy providers\<close>
  have lazy: "calc_block q itm (k1, k2, k3, k4) = Inr t"
    if q: "cls q \<noteq> PhysERI" "model q = m" "kconserv q = (\<lambda>k1 k2 k3. gk m k1 k3 k2)" for q
  proof -
    have kc: "kconserv_at q k1 k2 k3 = Inr k4"
      using assms(2-4,6) q by (simp add: kconserv_at_def)
    have r: "\<And>k. k \<in> set [k1, k2, k3, k4] \<Longrightarrow>
            k < length (mo_coeff (model q)) \<and> k < length (PhysERI_nocc q)"
      using rng by (simp only: q(2) PhysERI_nocc_def)
    have "calc_block q itm (k1, k2, k3, k4)
          = ao2mo_k q [restrict_cols i1 n1 c1, restrict_cols i2 n2 c2, restrict_cols i3 n3 c3,
                       restrict_cols i4 n4 c4] [k1, k2, k3, k4]"
      using PhysERI4_calc_block_hit[OF q(1) kc r, of itm]
      by (simp add: itm PhysERI_nocc_def q(2) c n)
    also have "\<dots> = Inr t"
      using ao2mo_k_tabulate[of k1 q k2 k3 k4] assms(2-5)
      by (simp only: q(2) t_def ks_def)
    finally show ?thesis .
  qed
  have e4: "calc_block (PhysERI4_init gk m) itm (k1, k2, k3, k4) = Inr t"
    by (rule lazy) (simp_all add: PhysERI4_init_def)
  have e8: "calc_block (PhysERI8_init gk m) itm (k1, k2, k3, k4) = Inr t"
    by (rule lazy) (simp_all add: PhysERI8_init_def PhysERI4_init_def)
  \<comment> \<open>the eager provider\<close>
  from PhysERI_init_fields[OF assms(1)] obtain p where
    run: "PhysERI_init gk m = Inr p" and cp: "cls p = PhysERI" and mp: "model p = m"
    and kp: "kconserv p = (\<lambda>k1 k2 k3. gk m k1 k3 k2)"
    and fe: "\<And>k1 k2 k3 k4. full_eri_k p (k1, k2, k3, k4) =
           (if k1 < ?n \<and> k2 < ?n \<and> k3 < ?n \<and> k4 = gk m k1 k3 k2
            then Some (cached p (k1, k2, k3, k4)) else None)"
    by blast
  have kc: "kconserv_at p k1 k2 k3 = Inr k4"
    using assms(2-4,6) by (simp add: kconserv_at_def mp kp)
  have hit: "full_eri_k p (k1, k2, k3, k4) = Some (cached p (k1, k2, k3, k4))"
    unfolding fe using assms(2-4,6) by simp
  have cv: "cached p (k1, k2, k3, k4)
            = tabulate [ncols c1, ncols c2, ncols c3, ncols c4] (orbital_integral m ks [c1, c2, c3, c4])"
    using ao2mo_k_tabulate[of k1 p k2 k3 k4 c1 c2 c3 c4] assms(2-5)
    by (simp add: cached_def mp c ks_def)
  have r: "\<And>k. k \<in> set [k1, k2, k3, k4] \<Longrightarrow> k < length (PhysERI_nocc p)"
    using rng by (simp only: mp PhysERI_nocc_def)
  have "calc_block p itm (k1, k2, k3, k4)
        = Inr (getitem (cached p (k1, k2, k3, k4))
                 [ov_slice i1 n1, ov_slice i2 n2, ov_slice i3 n3, ov_slice i4 n4])"
    using PhysERI_calc_block_hit[OF cp hit r, of itm]
    by (simp add: itm PhysERI_nocc_def mp n ov_slice_def)
  then have e1: "calc_block p itm (k1, k2, k3, k4) = Inr t"
    unfolding cv eager_slice_is_restricted_transform t_def .
  show ?thesis
    by (intro exI[of _ p] exI[of _ t] conjI) (rule run kc e1 e4 e8)+
qed

theorem calc_block_providers_agree_witness:
  "\<exists>p t. PhysERI_init two_point_kconserv two_point_model = Inr p
      \<and> calc_block p ''ovov'' (0, 1, 0, 1) = Inr t
      \<and> calc_block (PhysERI4_init two_point_kconserv two_point_model) ''ovov'' (0, 1, 0, 1) = Inr t
      \<and> calc_block (PhysERI8_init two_point_kconserv two_point_model) ''ovov'' (0, 1, 0, 1) = Inr t"
proof -
  have "\<exists>p t. PhysERI_init two_point_kconserv two_point_model = Inr p
      \<and> kconserv_at p 0 1 0 = Inr 1
      \<and> calc_block p ''ovov'' (0, 1, 0, 1) = Inr t
      \<and> calc_block (PhysERI4_init two_point_kconserv two_point_model) ''ovov'' (0, 1, 0, 1) = Inr t
      \<and> calc_block (PhysERI8_init two_point_kconserv two_point_model) ''ovov'' (0, 1, 0, 1) = Inr t"
    by (rule calc_block_providers_agree[OF wf_two_point])
       (simp_all add: two_point_model_def two_point_kconserv_def)
  then show ?thesis by blast
qed

section \<open>The merged block matrix\<close>

lemma block_rows_Sequence:
  "block_rows f rs (Sequence cs) = sequence (map (\<lambda>r. sequence (map (f r) cs)) rs)"
  by (induction rs) (auto split: sum.splits)

lemma nth_concat_prefix:
  "i < length xss \<Longrightarrow> k < length (xss ! i) \<Longrightarrow>
   concat xss ! (sum_list (map length (take i xss)) + k) = xss ! i ! k"
proof (induction xss arbitrary: i)
  case Nil
  then show ?case by simp
next
  case (Cons xs xss)
  show ?case
  proof (cases i)
    case 0
    with Cons.prems show ?thesis by (simp add: nth_append)
  next
    case (Suc i')
    with Cons.prems have "concat xss ! (sum_list (map length (take i' xss)) + k) = xss ! i' ! k"
      by (intro Cons.IH) simp_all
    then show ?thesis
      by (simp add: Suc nth_append add.assoc)
  qed
qed

lemma length_mrow: "length (elems m) = nrows m * ncols m \<Longrightarrow> u < nrows m \<Longrightarrow> length (mrow m u) = ncols m"
proof -
  assume l: "length (elems m) = nrows m * ncols m" and u: "u < nrows m"
  have "u * ncols m + ncols m = Suc u * ncols m" by simp
  also have "\<dots> \<le> nrows m * ncols m" using u by (intro mult_le_mono1) simp
  finally show ?thesis using l by (simp add: mrow_def)
qed

lemma mrow_nth: "length (elems m) = nrows m * ncols m \<Longrightarrow> u < nrows m \<Longrightarrow> b < ncols m
  \<Longrightarrow> mrow m u ! b = entry m u b"
proof -
  assume l: "length (elems m) = nrows m * ncols m" and u: "u < nrows m" and b: "b < ncols m"
  have "u * ncols m + b < Suc u * ncols m" using b by simp
  also have "\<dots> \<le> nrows m * ncols m" using u by (intro mult_le_mono1) simp
  finally have lt: "u * ncols m + b < length (elems m)" using l by simp
  then have "drop (u * ncols m) (elems m) ! b = elems m ! (u * ncols m + b)"
    by (intro nth_drop) simp
  then show ?thesis using b by (simp add: mrow_def entry_def)
qed

lemma length_hrow:
  assumes "\<And>x. x \<in> set ms \<Longrightarrow> nrows x = h \<and> length (elems x) = h * ncols x" and "u < h"
  shows "length (hrow ms u) = sum_list (map ncols ms)"
proof -
  have e: "map (\<lambda>x. length (mrow x u)) ms = map ncols ms"
    by (rule map_cong[OF refl]) (use assms length_mrow in auto)
  show ?thesis by (simp add: hrow_def length_concat comp_def e)
qed

lemma hrow_nth:
  assumes "\<And>x. x \<in> set ms \<Longrightarrow> nrows x = h \<and> length (elems x) = h * ncols x" and "u < h"
    and "j < length ms" and "b < ncols (ms ! j)"
  shows "hrow ms u ! (sum_list (map ncols (take j ms)) + b) = entry (ms ! j) u b"
proof -
  have mj: "nrows (ms ! j) = h" "length (elems (ms ! j)) = nrows (ms ! j) * ncols (ms ! j)"
    using assms(1)[of "ms ! j"] assms(3) by simp_all
  have l: "map length (take j (map (\<lambda>x. mrow x u) ms)) = map ncols (take j ms)"
    unfolding take_map map_map
    by (rule map_cong[OF refl]) (use assms(1,2) length_mrow in \<open>auto dest!: in_set_takeD\<close>)
  have lj: "length (map (\<lambda>x. mrow x u) ms ! j) = ncols (ms ! j)"
    using assms(2,3) mj by (simp add: length_mrow)
  have "concat (map (\<lambda>x. mrow x u) ms) ! (sum_list (map length (take j (map (\<lambda>x. mrow x u) ms))) + b)
        = map (\<lambda>x. mrow x u) ms ! j ! b"
    by (rule nth_concat_prefix) (use assms(3,4) lj in simp_all)
  then show ?thesis
    unfolding l hrow_def using assms(2,3,4) mj by (simp add: mrow_nth)
qed

lemma prefix_sum_less:
  fixes f :: "'a \<Rightarrow> nat"
  shows "j < length xs \<Longrightarrow> b < f (xs ! j) \<Longrightarrow> sum_list (map f (take j xs)) + b < sum_list (map f xs)"
proof (induction xs arbitrary: j)
  case Nil
  then show ?case by simp
next
  case (Cons x xs)
  show ?case
  proof (cases j)
    case 0
    with Cons.prems show ?thesis by simp
  next
    case (Suc j')
    with Cons.prems have "sum_list (map f (take j' xs)) + b < sum_list (map f xs)"
      by (intro Cons.IH) simp_all
    then show ?thesis by (simp add: Suc)
  qed
qed

lemma hstack_value:
  assumes "ms \<noteq> []" and "\<And>x. x \<in> set ms \<Longrightarrow> nrows x = h"
  shows "hstack ms = Inr \<lparr>nrows = h, ncols = sum_list (map ncols ms),
                          elems = concat (map (hrow ms) [0..<h])\<rparr>"
proof -
  obtain m ms' where ms: "ms = m # ms'" using assms(1) by (cases ms) auto
  have h: "nrows m = h" using assms(2) ms by simp
  have "list_all (\<lambda>x. nrows x = nrows m) ms"
    using assms(2) h by (simp add: list_all_iff)
  then have "hstack ms = Inr \<lparr>nrows = nrows m, ncols = sum_list (map ncols ms),
                     elems = concat (map (\<lambda>u. concat (map (\<lambda>x. mrow x u) ms)) [0..<nrows m])\<rparr>"
    unfolding hstack_def ms by simp
  then show ?thesis
    unfolding h hrow_def[abs_def] .
qed

lemma hstack_entry:
  assumes wf: "\<And>x. x \<in> set ms \<Longrightarrow> nrows x = h \<and> length (elems x) = h * ncols x"
    and "u < h" and "j < length ms" and "b < ncols (ms ! j)"
  shows "entry \<lparr>nrows = h, ncols = sum_list (map ncols ms), elems = concat (map (hrow ms) [0..<h])\<rparr>
           u (sum_list (map ncols (take j ms)) + b)
         = entry (ms ! j) u b"
proof -
  let ?W = "sum_list (map ncols ms)"
  let ?c = "sum_list (map ncols (take j ms)) + b"
  have c: "?c < ?W" by (rule prefix_sum_less[of j ms b ncols, OF assms(3,4)])
  have "concat (map (hrow ms) [0..<h]) ! (u * ?W + ?c) = hrow ms u ! ?c"
    by (rule nth_concat_map_upt) (use length_hrow[OF wf] assms(2) c in simp_all)
  also have "\<dots> = entry (ms ! j) u b"
    by (rule hrow_nth[OF wf assms(2-4)])
  finally show ?thesis by (simp add: entry_def)
qed

lemma length_hstack_elems:
  assumes "\<And>x. x \<in> set ms \<Longrightarrow> nrows x = h \<and> length (elems x) = h * ncols x"
  shows "length (concat (map (hrow ms) [0..<h])) = h * sum_list (map ncols ms)"
  by (rule length_concat_map_upt) (rule length_hrow[OF assms])

lemma vstack_value:
  assumes "rs \<noteq> []" and "\<And>x. x \<in> set rs \<Longrightarrow> ncols x = W"
  shows "vstack rs = Inr \<lparr>nrows = sum_list (map nrows rs), ncols = W, elems = concat (map elems rs)\<rparr>"
proof -
  obtain m rs' where rs: "rs = m # rs'" using assms(1) by (cases rs) auto
  have w: "ncols m = W" using assms(2) rs by simp
  have "list_all (\<lambda>x. ncols x = ncols m) rs"
    using assms(2) w by (simp add: list_all_iff)
  then have "vstack rs = Inr \<lparr>nrows = sum_list (map nrows rs), ncols = ncols m,
                               elems = concat (map elems rs)\<rparr>"
    unfolding vstack_def rs by simp
  then show ?thesis unfolding w .
qed

lemma vstack_entry:
  assumes wf: "\<And>x. x \<in> set rs \<Longrightarrow> ncols x = W \<and> length (elems x) = nrows x * W"
    and "i < length rs" and "a < nrows (rs ! i)" and "c < W"
  shows "entry \<lparr>nrows = sum_list (map nrows rs), ncols = W, elems = concat (map elems rs)\<rparr>
           (sum_list (map nrows (take i rs)) + a) c
         = entry (rs ! i) a c"
proof -
  have ri: "ncols (rs ! i) = W" "length (elems (rs ! i)) = nrows (rs ! i) * W"
    using wf[of "rs ! i"] assms(2) by simp_all
  have l: "sum_list (map length (take i (map elems rs))) = sum_list (map nrows (take i rs)) * W"
  proof -
    have "map length (take i (map elems rs)) = map (\<lambda>x. nrows x * W) (take i rs)"
      unfolding take_map map_map
      by (rule map_cong[OF refl]) (use wf in \<open>auto dest!: in_set_takeD\<close>)
    then show ?thesis by (simp add: sum_list_mult_const)
  qed
  have "a * W + c < Suc a * W" using assms(4) by simp
  also have "\<dots> \<le> nrows (rs ! i) * W" using assms(3) by (intro mult_le_mono1) simp
  finally have k: "a * W + c < length (map elems rs ! i)" using assms(2) ri by simp
  have "concat (map elems rs) ! (sum_list (map length (take i (map elems rs))) + (a * W + c))
        = map elems rs ! i ! (a * W + c)"
    by (rule nth_concat_prefix) (use assms(2) k in simp_all)
  then show ?thesis
    unfolding l using assms(2) ri by (simp add: entry_def algebra_simps)
qed

lemma vstack_entry_bound:
  assumes wf: "\<And>x. x \<in> set rs \<Longrightarrow> ncols x = W \<and> length (elems x) = nrows x * W"
    and "i < length rs" and "a < nrows (rs ! i)" and "c < W"
  shows "(sum_list (map nrows (take i rs)) + a) * W + c < length (concat (map elems rs))"
proof -
  have ri: "length (elems (rs ! i)) = nrows (rs ! i) * W"
    using wf[of "rs ! i"] assms(2) by simp
  have l: "sum_list (map length (take i (map elems rs))) = sum_list (map nrows (take i rs)) * W"
  proof -
    have "map length (take i (map elems rs)) = map (\<lambda>x. nrows x * W) (take i rs)"
      unfolding take_map map_map
    proof (rule map_cong[OF refl])
      fix x assume "x \<in> set (take i rs)"
      then have "x \<in> set rs" by (rule in_set_takeD)
      from wf[OF this] show "(length \<circ> elems) x = nrows x * W" by simp
    qed
    then show ?thesis by (simp add: sum_list_mult_const)
  qed
  have "a * W + c < Suc a * W" using assms(4) by simp
  also have "\<dots> \<le> nrows (rs ! i) * W" using assms(3) by (intro mult_le_mono1) simp
  finally have k: "a * W + c < length (map elems rs ! i)" using assms(2) ri by simp
  have "sum_list (map length (take i (map elems rs))) + (a * W + c) < sum_list (map length (map elems rs))"
    by (rule prefix_sum_less[of i "map elems rs" "a * W + c" length]) (use assms(2) k in simp_all)
  then show ?thesis
    unfolding l by (simp add: length_concat algebra_simps)
qed

lemma np_block_layout:
  fixes h w :: "'a \<Rightarrow> nat"
  assumes "rs \<noteq> []" and "cs \<noteq> []"
    and shapes: "\<And>r c. r \<in> set rs \<Longrightarrow> c \<in> set cs \<Longrightarrow>
           nrows (B r c) = h r \<and> ncols (B r c) = w c \<and> length (elems (B r c)) = h r * w c"
  shows "\<exists>M. np_block (map (\<lambda>r. map (B r) cs) rs) = Inr M
           \<and> nrows M = sum_list (map h rs) \<and> ncols M = sum_list (map w cs)
           \<and> (\<forall>i j a b. i < length rs \<and> j < length cs \<and> a < h (rs ! i) \<and> b < w (cs ! j) \<longrightarrow>
                 (sum_list (map h (take i rs)) + a) * sum_list (map w cs)
                   + (sum_list (map w (take j cs)) + b) < length (elems M)
                 \<and> entry M (sum_list (map h (take i rs)) + a) (sum_list (map w (take j cs)) + b)
                   = entry (B (rs ! i) (cs ! j)) a b)"
proof -
  let ?W = "sum_list (map w cs)"
  define R where "R r = \<lparr>nrows = h r, ncols = sum_list (map ncols (map (B r) cs)),
                          elems = concat (map (hrow (map (B r) cs)) [0..<h r])\<rparr>" for r
  have wfB: "nrows x = h r \<and> length (elems x) = h r * ncols x"
    if "r \<in> set rs" "x \<in> set (map (B r) cs)" for r x
  proof -
    from that(2) obtain c where c: "c \<in> set cs" and x: "x = B r c" by auto
    from shapes[OF that(1) c] show ?thesis unfolding x by simp
  qed
  have W: "sum_list (map ncols (map (B r) cs)) = ?W" if "r \<in> set rs" for r
  proof -
    have e: "map ncols (map (B r) cs) = map w cs"
      unfolding map_map
    proof (rule map_cong[OF refl])
      fix c assume "c \<in> set cs"
      from shapes[OF that this] show "(ncols \<circ> B r) c = w c" by simp
    qed
    show ?thesis unfolding e ..
  qed
  have coff: "sum_list (map ncols (take j (map (B r) cs))) = sum_list (map w (take j cs))"
    if "r \<in> set rs" for r j
  proof -
    have e: "map ncols (take j (map (B r) cs)) = map w (take j cs)"
      unfolding take_map map_map
    proof (rule map_cong[OF refl])
      fix c assume "c \<in> set (take j cs)"
      then have "c \<in> set cs" by (rule in_set_takeD)
      from shapes[OF that this] show "(ncols \<circ> B r) c = w c" by simp
    qed
    show ?thesis unfolding e ..
  qed
  have hs: "hstack (map (B r) cs) = Inr (R r)" if "r \<in> set rs" for r
    unfolding R_def
  proof (rule hstack_value)
    show "map (B r) cs \<noteq> []" using assms(2) by simp
    fix x assume "x \<in> set (map (B r) cs)"
    from wfB[OF that this] show "nrows x = h r" by (rule conjunct1)
  qed
  have sq: "sequence (map hstack (map (\<lambda>r. map (B r) cs) rs)) = Inr (map R rs)"
    unfolding map_map by (rule sequence_map_Inr) (simp only: comp_def hs)
  have wfR: "ncols x = ?W \<and> length (elems x) = nrows x * ?W" if "x \<in> set (map R rs)" for x
  proof -
    from that obtain r where r: "r \<in> set rs" and x: "x = R r" by auto
    have "length (elems (R r)) = h r * sum_list (map ncols (map (B r) cs))"
      unfolding R_def using length_hstack_elems[of "map (B r) cs" "h r", OF wfB[OF r]] by simp
    then show ?thesis unfolding x using W[OF r] by (simp add: R_def)
  qed
  define M where "M = \<lparr>nrows = sum_list (map nrows (map R rs)), ncols = ?W,
                       elems = concat (map elems (map R rs))\<rparr>"
  have vs: "vstack (map R rs) = Inr M"
    unfolding M_def
  proof (rule vstack_value)
    show "map R rs \<noteq> []" using assms(1) by simp
    fix x assume "x \<in> set (map R rs)"
    from wfR[OF this] show "ncols x = ?W" by (rule conjunct1)
  qed
  have run: "np_block (map (\<lambda>r. map (B r) cs) rs) = Inr M"
    unfolding np_block_def sq using vs by simp
  have nr: "map nrows (map R rs) = map h rs" by (simp add: R_def)
  have roff: "sum_list (map nrows (take i (map R rs))) = sum_list (map h (take i rs))" for i
    by (simp add: take_map R_def comp_def)
  have ent: "(sum_list (map h (take i rs)) + a) * ?W + (sum_list (map w (take j cs)) + b) < length (elems M)
             \<and> entry M (sum_list (map h (take i rs)) + a) (sum_list (map w (take j cs)) + b)
               = entry (B (rs ! i) (cs ! j)) a b"
    if "i < length rs" "j < length cs" "a < h (rs ! i)" "b < w (cs ! j)" for i j a b
  proof -
    have ri: "rs ! i \<in> set rs" using that(1) by simp
    have cj: "cs ! j \<in> set cs" using that(2) by simp
    have i': "i < length (map R rs)" using that(1) by simp
    have a': "a < nrows (map R rs ! i)" using that(1,3) by (simp add: R_def)
    have b': "b < ncols (map (B (rs ! i)) cs ! j)" using that(2,4) shapes[OF ri cj] by simp
    have c: "sum_list (map w (take j cs)) + b < ?W"
      by (rule prefix_sum_less[of j cs b w, OF that(2,4)])
    have e1: "entry M (sum_list (map nrows (take i (map R rs))) + a) (sum_list (map w (take j cs)) + b)
              = entry (map R rs ! i) a (sum_list (map w (take j cs)) + b)"
      unfolding M_def by (rule vstack_entry[OF wfR i' a' c])
    have e2: "entry (R (rs ! i)) a (sum_list (map ncols (take j (map (B (rs ! i)) cs))) + b)
              = entry (map (B (rs ! i)) cs ! j) a b"
      unfolding R_def
      by (rule hstack_entry[OF wfB[OF ri] that(3) _ b']) (simp_all add: that(2))
    have bd: "(sum_list (map nrows (take i (map R rs))) + a) * ?W + (sum_list (map w (take j cs)) + b)
              < length (concat (map elems (map R rs)))"
      by (rule vstack_entry_bound[OF wfR i' a' c])
    show ?thesis
      using e1 e2 bd that(1,2) unfolding roff coff[OF ri] by (simp add: M_def)
  qed
  have sz: "nrows M = sum_list (map h rs)" "ncols M = ?W"
    by (simp_all add: M_def comp_def R_def)
  have ent': "\<forall>i j a b. i < length rs \<and> j < length cs \<and> a < h (rs ! i) \<and> b < w (cs ! j) \<longrightarrow>
                 (sum_list (map h (take i rs)) + a) * sum_list (map w cs)
                   + (sum_list (map w (take j cs)) + b) < length (elems M)
                 \<and> entry M (sum_list (map h (take i rs)) + a) (sum_list (map w (take j cs)) + b)
                   = entry (B (rs ! i) (cs ! j)) a b"
    by (intro allI impI) (elim conjE, rule ent; assumption)
  show ?thesis
    by (intro exI[of _ M] conjI) (rule run sz ent')+
qed

lemma entry_divide_by:
  "a * ncols r + b < length (elems r) \<Longrightarrow> entry (divide_by r n) a b = fdiv (entry r a b) (Some (real n))"
  by (simp add: entry_def divide_by_def)

lemma eri_mknj_single_use:
  "eri_mknj self blk itm pr (Some (Iterator cs)) = eri_mknj self blk itm pr (Some (Sequence cs))"
  by (simp add: eri_mknj_def)

text \<open>
  C7, as the code has it. The row pairs and the column pairs are what the two iterables
  yield (all pairs of k-points for an argument left out); both are non-empty, and the
  block of row pair r and column pair c is returned with h r rows and w c columns. Then
  merged retrieval returns the block matrix: entry (a, b) of block (i, j) stands at row
  (heights before i) + a and column (widths before j) + b, divided by the number of
  k-points. A single-use iterator for the column pairs gives the result of the sequence of
  the same pairs, whatever the other arguments are.
\<close>

theorem eri_mknj_layout:
  fixes h w :: "nat \<times> nat \<Rightarrow> nat"
  assumes "rs = items (case pairs_row of None \<Rightarrow> product_range (length (kpts (model self))) | Some it \<Rightarrow> it)"
    and "cs = items (case pairs_column of None \<Rightarrow> product_range (length (kpts (model self))) | Some it \<Rightarrow> it)"
    and "rs \<noteq> []" and "cs \<noteq> []"
    and blocks: "\<And>k1 k2 k3 k4. (k1, k2) \<in> set rs \<Longrightarrow> (k3, k4) \<in> set cs \<Longrightarrow>
           eri_mknj_k itm (k1, k2, k3, k4) = Inr (B (k1, k2) (k3, k4))"
    and shapes: "\<And>r c. r \<in> set rs \<Longrightarrow> c \<in> set cs \<Longrightarrow>
           nrows (B r c) = h r \<and> ncols (B r c) = w c \<and> length (elems (B r c)) = h r * w c"
  shows "(\<exists>M. eri_mknj self eri_mknj_k itm pairs_row pairs_column = Inr M
            \<and> nrows M = sum_list (map h rs) \<and> ncols M = sum_list (map w cs)
            \<and> (\<forall>i j a b. i < length rs \<and> j < length cs \<and> a < h (rs ! i) \<and> b < w (cs ! j) \<longrightarrow>
                  entry M (sum_list (map h (take i rs)) + a) (sum_list (map w (take j cs)) + b)
                  = fdiv (entry (B (rs ! i) (cs ! j)) a b) (Some (real (length (kpts (model self)))))))
         \<and> eri_mknj self' blk' itm' pr' (Some (Iterator cs')) = eri_mknj self' blk' itm' pr' (Some (Sequence cs'))"
proof -
  let ?n = "length (kpts (model self))"
  let ?f = "\<lambda>(k1, k2) (k3, k4). eri_mknj_k itm (k1, k2, k3, k4)"
  have inner: "sequence (map (?f r) cs) = Inr (map (B r) cs)" if "r \<in> set rs" for r
  proof (rule sequence_map_Inr)
    fix c assume c: "c \<in> set cs"
    obtain k1 k2 where r: "r = (k1, k2)" by (cases r) auto
    obtain k3 k4 where ce: "c = (k3, k4)" by (cases c) auto
    from blocks[OF that[unfolded r] c[unfolded ce]] show "?f r c = Inr (B r c)"
      by (simp add: r ce)
  qed
  have "sequence (map (\<lambda>r. sequence (map (?f r) cs)) rs) = Inr (map (\<lambda>r. map (B r) cs) rs)"
    by (rule sequence_map_Inr) (rule inner)
  then have br: "block_rows ?f rs (Sequence cs) = Inr (map (\<lambda>r. map (B r) cs) rs)"
    unfolding block_rows_Sequence .
  from np_block_layout[of rs cs B h w, OF assms(3,4) shapes] obtain M0 where
    nb: "np_block (map (\<lambda>r. map (B r) cs) rs) = Inr M0"
    and sz: "nrows M0 = sum_list (map h rs)" "ncols M0 = sum_list (map w cs)"
    and ent: "\<forall>i j a b. i < length rs \<and> j < length cs \<and> a < h (rs ! i) \<and> b < w (cs ! j) \<longrightarrow>
                 (sum_list (map h (take i rs)) + a) * sum_list (map w cs)
                   + (sum_list (map w (take j cs)) + b) < length (elems M0)
                 \<and> entry M0 (sum_list (map h (take i rs)) + a) (sum_list (map w (take j cs)) + b)
                   = entry (B (rs ! i) (cs ! j)) a b"
    by blast
  have run: "eri_mknj self eri_mknj_k itm pairs_row pairs_column = Inr (divide_by M0 ?n)"
    unfolding eri_mknj_def Let_def
    by (simp only: assms(1)[symmetric, unfolded items_def] assms(2)[symmetric, unfolded items_def]
        br sum.case nb)
  have e: "entry (divide_by M0 ?n) (sum_list (map h (take i rs)) + a) (sum_list (map w (take j cs)) + b)
           = fdiv (entry (B (rs ! i) (cs ! j)) a b) (Some (real ?n))"
    if "i < length rs" "j < length cs" "a < h (rs ! i)" "b < w (cs ! j)" for i j a b
  proof -
    from ent that have
      bd: "(sum_list (map h (take i rs)) + a) * ncols M0
             + (sum_list (map w (take j cs)) + b) < length (elems M0)"
      and en: "entry M0 (sum_list (map h (take i rs)) + a) (sum_list (map w (take j cs)) + b)
                 = entry (B (rs ! i) (cs ! j)) a b"
      unfolding sz by blast+
    show ?thesis
      unfolding entry_divide_by[OF bd] en ..
  qed
  have e': "\<forall>i j a b. i < length rs \<and> j < length cs \<and> a < h (rs ! i) \<and> b < w (cs ! j) \<longrightarrow>
                  entry (divide_by M0 ?n) (sum_list (map h (take i rs)) + a) (sum_list (map w (take j cs)) + b)
                  = fdiv (entry (B (rs ! i) (cs ! j)) a b) (Some (real ?n))"
    by (intro allI impI) (elim conjE, rule e; assumption)
  have sz': "nrows (divide_by M0 ?n) = sum_list (map h rs)" "ncols (divide_by M0 ?n) = sum_list (map w cs)"
    using sz by (simp_all add: divide_by_def)
  show ?thesis
    by (intro conjI exI[of _ "divide_by M0 ?n"]) (rule run sz' e' eri_mknj_single_use)+
qed

theorem eri_mknj_layout_witness:
  "\<exists>M. eri_mknj (PhysERI4_init two_point_kconserv two_point_model)
          (\<lambda>itm k. case k of (k1, k2, k3, k4) \<Rightarrow>
                       Inr \<lparr>nrows = 1, ncols = 1, elems = [Some (of_nat (k1 + k3))]\<rparr>)
          ''mknj'' (Some (Sequence [(0, 0), (1, 1)])) (Some (Iterator [(0, 0), (1, 0)])) = Inr M
      \<and> nrows M = 2 \<and> ncols M = 2
      \<and> entry M 1 1 = Some 1
      \<and> entry M 0 1 = Some (1 / 2)"
proof -
  let ?self = "PhysERI4_init two_point_kconserv two_point_model"
  let ?blk = "\<lambda>(itm :: string) (k :: kquad). case k of (k1, k2, k3, k4) \<Rightarrow>
                 (Inr \<lparr>nrows = 1, ncols = 1, elems = [Some (of_nat (k1 + k3))]\<rparr> :: error + matrix)"
  let ?B = "\<lambda>(r :: nat \<times> nat) (c :: nat \<times> nat).
               \<lparr>nrows = 1, ncols = 1, elems = [Some (of_nat (fst r + fst c))]\<rparr>"
  let ?rs = "[(0, 0), (1, 1)] :: (nat \<times> nat) list"
  let ?cs = "[(0, 0), (1, 0)] :: (nat \<times> nat) list"
  have n: "length (kpts (model ?self)) = 2"
    by (simp add: PhysERI4_init_def two_point_model_def)
  have "(\<exists>M. eri_mknj ?self ?blk ''mknj'' (Some (Sequence ?rs)) (Some (Iterator ?cs)) = Inr M
            \<and> nrows M = sum_list (map (\<lambda>_. 1) ?rs)
            \<and> ncols M = sum_list (map (\<lambda>_. 1) ?cs)
            \<and> (\<forall>i j a b. i < length ?rs \<and> j < length ?cs \<and> a < 1 \<and> b < 1 \<longrightarrow>
                  entry M (sum_list (map (\<lambda>_. 1) (take i ?rs)) + a)
                          (sum_list (map (\<lambda>_. 1) (take j ?cs)) + b)
                  = fdiv (entry (?B (?rs ! i) (?cs ! j)) a b)
                      (Some (real (length (kpts (model ?self)))))))
         \<and> eri_mknj ?self ?blk ''mknj'' None (Some (Iterator [])) = eri_mknj ?self ?blk ''mknj'' None (Some (Sequence []))"
    by (rule eri_mknj_layout[where rs = ?rs and pairs_row = "Some (Sequence ?rs)"
          and self = ?self and cs = ?cs and pairs_column = "Some (Iterator ?cs)"
          and eri_mknj_k = ?blk and itm = "''mknj''" and B = ?B and h = "\<lambda>_. 1" and w = "\<lambda>_. 1"
          and self' = ?self and blk' = ?blk and itm' = "''mknj''" and pr' = None and cs' = "[]"])
       (simp_all add: items_def)
  then obtain M where
    run: "eri_mknj ?self ?blk ''mknj'' (Some (Sequence ?rs)) (Some (Iterator ?cs)) = Inr M"
    and sz: "nrows M = 2" "ncols M = 2"
    and ent: "\<forall>i j a b. i < length ?rs \<and> j < length ?cs \<and> a < 1 \<and> b < 1 \<longrightarrow>
                  entry M (sum_list (map (\<lambda>_. 1) (take i ?rs)) + a)
                          (sum_list (map (\<lambda>_. 1) (take j ?cs)) + b)
                  = fdiv (entry (?B (?rs ! i) (?cs ! j)) a b)
                      (Some (real (length (kpts (model ?self)))))"
    by auto
  have "entry M 1 1 = Some 1"
    using ent[rule_format, of 1 1 0 0] by (simp add: entry_def fdiv_def n)
  moreover have "entry M 0 1 = Some (1 / 2)"
    using ent[rule_format, of 0 1 0 0] by (simp add: entry_def fdiv_def n)
  ultimately show ?thesis using run sz by blast
qed

text \<open>
  The claim as written, for every pair of iterables, fails at an empty one: with no row
  pair the list handed to \<open>numpy.block\<close> is empty, and it raises.
\<close>

theorem eri_mknj_empty_counterexample:
  "eri_mknj (PhysERI4_init two_point_kconserv two_point_model)
     (\<lambda>itm k. Inr \<lparr>nrows = 1, ncols = 1, elems = [Some 1]\<rparr>)
     ''mknj'' (Some (Sequence [])) (Some (Sequence [(0, 0)])) = Inl ValueError"
  by (simp add: eri_mknj_def np_block_def vstack_def)

section \<open>The driver and the container: results\<close>

lemma np_reshape_cases:
  obtains (refused) e where "\<And>b. np_reshape (v\<lparr>buf := b\<rparr>) ns = Inl e"
  | (reshaped) sh where "\<And>b. np_reshape (v\<lparr>buf := b\<rparr>) ns = Inr \<lparr>buf = b, shape = sh\<rparr>"
proof (cases "np_reshape v ns")
  case (Inl e)
  then have "\<And>b. np_reshape (v\<lparr>buf := b\<rparr>) ns = Inl e"
    by (auto simp: np_reshape_def Let_def split: if_splits)
  then show ?thesis by (rule refused)
next
  case (Inr w)
  then have "\<And>b. np_reshape (v\<lparr>buf := b\<rparr>) ns = Inr \<lparr>buf = b, shape = shape w\<rparr>"
    by (auto simp: np_reshape_def Let_def split: if_splits)
  then show ?thesis by (rule reshaped)
qed

lemma vector_to_amplitudes_cases:
  obtains (err) e where "\<And>st b. vector_to_amplitudes st (v\<lparr>buf := b\<rparr>) nocc nmo = (Inl e, st)"
  | (ok) sh where "\<And>st b. vector_to_amplitudes st (v\<lparr>buf := b\<rparr>) nocc nmo =
        (Inr \<lparr>base = \<lparr>buf = b, shape = sh\<rparr>, axes = [5, 0, 1, 2, 3, 4]\<rparr>,
         st[b := idiv_last (st ! b) (sh ! 5) (map fsqrt (root_norms (st ! b) sh))])"
proof (cases "list_all (\<lambda>i. i = hd nocc) nocc")
  case False
  then have "\<And>st b. vector_to_amplitudes st (v\<lparr>buf := b\<rparr>) nocc nmo = (Inl NotImplementedError, st)"
    by (simp add: vector_to_amplitudes_def)
  then show ?thesis by (rule err)
next
  case h1: True
  show ?thesis
  proof (cases nocc)
    case Nil
    then have "\<And>st b. vector_to_amplitudes st (v\<lparr>buf := b\<rparr>) nocc nmo = (Inl IndexError, st)"
      by (simp add: vector_to_amplitudes_def)
    then show ?thesis by (rule err)
  next
    case nocc: (Cons nocc0 noccs)
    show ?thesis
    proof (cases "list_all (\<lambda>i. i = hd nmo) nmo")
      case False
      then have "\<And>st b. vector_to_amplitudes st (v\<lparr>buf := b\<rparr>) nocc nmo = (Inl NotImplementedError, st)"
        using h1 nocc by (simp add: vector_to_amplitudes_def)
      then show ?thesis by (rule err)
    next
      case h2: True
      show ?thesis
      proof (cases nmo)
        case Nil
        then have "\<And>st b. vector_to_amplitudes st (v\<lparr>buf := b\<rparr>) nocc nmo = (Inl IndexError, st)"
          using h1 nocc by (simp add: vector_to_amplitudes_def)
        then show ?thesis by (rule err)
      next
        case nmo: (Cons nmo0 nmos)
        show ?thesis
        proof (cases "\<exists>x ncol rest. shape v = x # ncol # rest")
          case False
          then have "\<And>st b. vector_to_amplitudes st (v\<lparr>buf := b\<rparr>) nocc nmo = (Inl IndexError, st)"
            using h1 h2 nocc nmo by (auto simp: vector_to_amplitudes_def split: list.splits)
          then show ?thesis by (rule err)
        next
          case True
          then obtain x ncol rest where sv: "shape v = x # ncol # rest" by blast
          let ?ns = "[2, int (length nocc), int (length nocc), int nocc0, int nmo0 - int nocc0, int ncol]"
          show ?thesis
          proof (cases v ?ns rule: np_reshape_cases)
            case (refused e)
            then have "\<And>st b. vector_to_amplitudes st (v\<lparr>buf := b\<rparr>) nocc nmo = (Inl e, st)"
              using h1 h2 nocc nmo sv by (simp add: vector_to_amplitudes_def)
            then show ?thesis by (rule err)
          next
            case (reshaped sh)
            then have "\<And>st b. vector_to_amplitudes st (v\<lparr>buf := b\<rparr>) nocc nmo =
                (Inr \<lparr>base = \<lparr>buf = b, shape = sh\<rparr>, axes = [5, 0, 1, 2, 3, 4]\<rparr>,
                 st[b := idiv_last (st ! b) (sh ! 5) (map fsqrt (root_norms (st ! b) sh))])"
              using h1 h2 nocc nmo sv by (simp add: vector_to_amplitudes_def np_transpose_def Let_def)
            then show ?thesis by (rule ok)
          qed
        qed
      qed
    qed
  qed
qed

lemma kernel_cases:
  obtains (fails) err where
      "\<And>st r. \<exists>x. kernel ext st arg d n r = (Inl err, st @ x)"
  | (returns) vals sh new where
      "\<And>st r. kernel ext st arg d n r =
         (Inr (vals, \<lparr>base = \<lparr>buf = length st, shape = sh\<rparr>, axes = [5, 0, 1, 2, 3, 4]\<rparr>,
               if r then Some (provider_of ext arg) else None),
          st @ [new])"
proof -
  let ?eri = "provider_of ext arg"
  have k: "kernel ext st arg d n r =
     (case build_matrix ext ?eri of
           Inl err \<Rightarrow> (Inl err, st)
         | Inr mat \<Rightarrow>
             (case eig ext mat d n of
                Inl err \<Rightarrow> (Inl err, st)
              | Inr (vals, vecs) \<Rightarrow>
                  (case vector_to_amplitudes (st @ [elems vecs])
                          \<lparr>buf = length st, shape = [nrows vecs, ncols vecs]\<rparr>
                               (PhysERI_nocc ?eri) (PhysERI_nmo ?eri) of
                          (Inl err, st2) \<Rightarrow> (Inl err, st2)
                        | (Inr amps, st2) \<Rightarrow>
                            (Inr (vals, amps, if r then Some ?eri else None), st2))))" for st r
    unfolding kernel_def provider_of_def alloc_def Let_def prod.case ..
  show ?thesis
  proof (cases "build_matrix ext ?eri")
    case (Inl e)
    then have "\<And>st r. \<exists>x. kernel ext st arg d n r = (Inl e, st @ x)"
      unfolding k by (intro exI[of _ "[]"]) simp
    then show ?thesis by (rule fails)
  next
    case (Inr mat)
    note bm = this
    show ?thesis
    proof (cases "eig ext mat d n")
      case (Inl e)
      then have "\<And>st r. \<exists>x. kernel ext st arg d n r = (Inl e, st @ x)"
        unfolding k bm by (intro exI[of _ "[]"]) simp
      then show ?thesis by (rule fails)
    next
      case (Inr res)
      obtain vals vecs where res: "res = (vals, vecs)" by (cases res) auto
      have eg: "eig ext mat d n = Inr (vals, vecs)" using Inr res by simp
      let ?v = "\<lparr>buf = 0, shape = [nrows vecs, ncols vecs]\<rparr>"
      have vb: "?v\<lparr>buf := b\<rparr> = \<lparr>buf = b, shape = [nrows vecs, ncols vecs]\<rparr>" for b by simp
      show ?thesis
      proof (cases ?v "PhysERI_nocc ?eri" "PhysERI_nmo ?eri" rule: vector_to_amplitudes_cases)
        case (err e)
        have "\<exists>x. kernel ext st arg d n r = (Inl e, st @ x)" for st r
          by (intro exI[of _ "[elems vecs]"])
             (simp only: k bm eg sum.case prod.case err[of "st @ [elems vecs]" "length st", unfolded vb])
        then show ?thesis by (rule fails)
      next
        case (ok sh)
        have "kernel ext st arg d n r =
           (Inr (vals, \<lparr>base = \<lparr>buf = length st, shape = sh\<rparr>, axes = [5, 0, 1, 2, 3, 4]\<rparr>,
               if r then Some ?eri else None),
            st @ [idiv_last (elems vecs) (sh ! 5) (map fsqrt (root_norms (elems vecs) sh))])" for st r
          using ok[of "st @ [elems vecs]" "length st", unfolded vb]
          by (simp add: k bm eg)
        then show ?thesis by (rule returns)
      qed
    qed
  qed
qed

lemma kernel_provider:
  "kernel ext st (Provider (provider_of ext (Model m))) d n r = kernel ext st (Model m) d n r"
  by (simp add: kernel_def provider_of_def)

lemma kernel_get_kconserv:
  "kernel (ext\<lparr>get_kconserv := g\<rparr>) st (Provider p) d n r = kernel ext st (Provider p) d n r"
proof -
  have b: "build_matrix (ext\<lparr>get_kconserv := g\<rparr>) = build_matrix ext"
    and e: "eig (ext\<lparr>get_kconserv := g\<rparr>) = eig ext"
    by simp_all
  show ?thesis
    unfolding kernel_def Let_def kernel_arg.case b e ..
qed

lemma view_value_fresh:
  "view_value (st @ [new]) \<lparr>base = \<lparr>buf = length st, shape = sh\<rparr>, axes = p\<rparr>
   = view_value [new] \<lparr>base = \<lparr>buf = 0, shape = sh\<rparr>, axes = p\<rparr>"
  by (simp add: view_value_def view_item_def view_shape_def)

lemma view_value_kept:
  "buf (base v) < length st \<Longrightarrow> view_value (st @ x) v = view_value st v"
  by (simp add: view_value_def view_item_def view_shape_def nth_append)

text \<open>
  C9. When the compute step of the container raises, the container is exactly as it was
  before the call: eigenvalues, amplitudes and provider are the stored ones. Every buffer
  that existed before the call is unchanged, so the stored amplitudes read as before; the
  failed call leaves at most an array of its own behind.
\<close>

theorem TDRHF_kernel_failure_keeps_state:
  assumes "TDRHF_kernel ext st self = (Inl err, st', self')"
  shows "self' = self
         \<and> td_e self' = td_e self \<and> td_xy self' = td_xy self \<and> td_eri self' = td_eri self
         \<and> length st \<le> length st'
         \<and> (\<forall>a<length st. st' ! a = st ! a)
         \<and> (\<forall>v. buf (base v) < length st \<longrightarrow> view_value st' v = view_value st v)"
proof -
  let ?arg = "case td_eri self of None \<Rightarrow> Model (td_scf self) | Some p \<Rightarrow> Provider p"
  show ?thesis
  proof (cases ext ?arg "td_driver self" "td_nroots self" rule: kernel_cases)
    case (fails e)
    from fails[of st True] obtain x where
      k: "kernel ext st ?arg (td_driver self) (td_nroots self) True = (Inl e, st @ x)" by blast
    from assms have s: "self' = self" and st': "st' = st @ x"
      unfolding TDRHF_kernel_def k by simp_all
    have "\<forall>v. buf (base v) < length st \<longrightarrow> view_value st' v = view_value st v"
      unfolding st' by (simp add: view_value_kept)
    then show ?thesis
      by (simp add: s st' nth_append)
  next
    case (returns vals sh new)
    from assms show ?thesis
      unfolding TDRHF_kernel_def returns[of st True] by simp
  qed
qed

text \<open>
  C8. A container without a provider whose compute step returns has stored the provider
  that the driver built for its model. A second compute step on the same configuration
  returns, from that stored provider (the conservation-map utility is not consulted
  again: any other one gives the same outcome), the same eigenvalues and amplitudes of
  the same value, leaves the amplitudes of the first call as they were, and keeps the
  provider. The standalone driver called on the model with the same driver name and
  number of roots, from any store, returns these eigenvalues and amplitudes too.
\<close>

theorem TDRHF_kernel_twice:
  assumes "td_eri self = None"
    and "TDRHF_kernel ext st self = (Inr (vals, xy), st1, self1)"
  shows "td_eri self1 = Some (provider_of ext (Model (td_scf self)))
         \<and> td_e self1 = Some vals \<and> td_xy self1 = Some xy
         \<and> (\<exists>xy2 st2 self2.
               TDRHF_kernel ext st1 self1 = (Inr (vals, xy2), st2, self2)
               \<and> TDRHF_kernel (ext\<lparr>get_kconserv := g\<rparr>) st1 self1 = (Inr (vals, xy2), st2, self2)
               \<and> view_value st2 xy2 = view_value st1 xy
               \<and> view_value st2 xy = view_value st1 xy
               \<and> td_eri self2 = td_eri self1
               \<and> td_e self2 = Some vals \<and> td_xy self2 = Some xy2)
         \<and> (\<exists>xy3 st3.
               kernel ext st0 (Model (td_scf self)) (td_driver self) (td_nroots self) False
                 = (Inr (vals, xy3, None), st3)
               \<and> view_value st3 xy3 = view_value st1 xy)"
proof -
  let ?m = "td_scf self"
  let ?p = "provider_of ext (Model ?m)"
  show ?thesis
  proof (cases ext "Model ?m" "td_driver self" "td_nroots self" rule: kernel_cases)
    case (fails e)
    from fails[of st True] obtain x where
      "kernel ext st (Model ?m) (td_driver self) (td_nroots self) True = (Inl e, st @ x)" by blast
    with assms(2) show ?thesis
      unfolding TDRHF_kernel_def assms(1) option.case by simp
  next
    case (returns vals' sh new)
    let ?view = "\<lambda>a. \<lparr>base = \<lparr>buf = a, shape = sh\<rparr>, axes = [5, 0, 1, 2, 3, 4]\<rparr>"
    from assms(2) have v: "vals = vals'" and xy: "xy = ?view (length st)" and st1: "st1 = st @ [new]"
      and self1: "self1 = self\<lparr>td_e := Some vals', td_xy := Some (?view (length st)), td_eri := Some ?p\<rparr>"
      unfolding TDRHF_kernel_def assms(1) option.case returns[of st True] by auto
    have k2: "kernel ext st1 (Provider ?p) (td_driver self) (td_nroots self) True
              = (Inr (vals, ?view (length st1), Some ?p), st1 @ [new])"
      unfolding kernel_provider returns[of st1 True] v by simp
    have f1: "td_eri self1 = Some ?p" "td_e self1 = Some vals" "td_xy self1 = Some xy"
      "td_driver self1 = td_driver self" "td_nroots self1 = td_nroots self"
      by (simp_all add: self1 v xy)
    define self2 where "self2 = self1\<lparr>td_e := Some vals, td_xy := Some (?view (length st1)), td_eri := Some ?p\<rparr>"
    have run2: "TDRHF_kernel ext st1 self1 = (Inr (vals, ?view (length st1)), st1 @ [new], self2)"
      unfolding TDRHF_kernel_def f1 option.case k2 self2_def by simp
    have run2': "TDRHF_kernel (ext\<lparr>get_kconserv := g\<rparr>) st1 self1
                 = (Inr (vals, ?view (length st1)), st1 @ [new], self2)"
      unfolding TDRHF_kernel_def f1 option.case kernel_get_kconserv k2 self2_def by simp
    have same: "view_value (st1 @ [new]) (?view (length st1)) = view_value st1 xy"
      unfolding xy st1 view_value_fresh[of "st @ [new]"] view_value_fresh[of st] ..
    have kept: "view_value (st1 @ [new]) xy = view_value st1 xy"
      by (rule view_value_kept) (simp add: xy st1)
    have f2: "td_eri self2 = td_eri self1" "td_e self2 = Some vals" "td_xy self2 = Some (?view (length st1))"
      by (simp_all add: self2_def f1)
    have second: "\<exists>xy2 st2 self2.
               TDRHF_kernel ext st1 self1 = (Inr (vals, xy2), st2, self2)
               \<and> TDRHF_kernel (ext\<lparr>get_kconserv := g\<rparr>) st1 self1 = (Inr (vals, xy2), st2, self2)
               \<and> view_value st2 xy2 = view_value st1 xy
               \<and> view_value st2 xy = view_value st1 xy
               \<and> td_eri self2 = td_eri self1
               \<and> td_e self2 = Some vals \<and> td_xy self2 = Some xy2"
      by (intro exI[of _ "?view (length st1)"] exI[of _ "st1 @ [new]"] exI[of _ self2] conjI)
         (rule run2 run2' same kept f2)+
    have k3: "kernel ext st0 (Model ?m) (td_driver self) (td_nroots self) False
              = (Inr (vals, ?view (length st0), None), st0 @ [new])"
      unfolding returns[of st0 False] v by simp
    have same3: "view_value (st0 @ [new]) (?view (length st0)) = view_value st1 xy"
      unfolding xy st1 view_value_fresh[of st0] view_value_fresh[of st] ..
    have third: "\<exists>xy3 st3.
               kernel ext st0 (Model ?m) (td_driver self) (td_nroots self) False
                 = (Inr (vals, xy3, None), st3)
               \<and> view_value st3 xy3 = view_value st1 xy"
      by (intro exI[of _ "?view (length st0)"] exI[of _ "st0 @ [new]"] conjI) (rule k3 same3)+
    show ?thesis
      by (intro conjI) (rule f1 second third)+
  qed
qed

lemma two_point_counts:
  "PhysERI_nocc (PhysERI8_init two_point_kconserv two_point_model) = [1, 1]"
  "PhysERI_nmo (PhysERI8_init two_point_kconserv two_point_model) = [2, 2]"
  by (simp_all add: PhysERI_nocc_def PhysERI_nmo_def PhysERI8_init_def PhysERI4_init_def
      two_point_model_def k_nocc_def k_nmo_def)

theorem TDRHF_kernel_failure_keeps_state_witness:
  "\<exists>st'. TDRHF_kernel short_vector_externals [[Some 5]] (TDRHF_init two_point_model)
            = (Inl ValueError, st', TDRHF_init two_point_model)
      \<and> st' ! 0 = [Some 5] \<and> 1 \<le> length st'"
proof -
  let ?st' = "[[Some 5], [Some 1, Some 0, Some 0]] :: store"
  have v: "vector_to_amplitudes ?st' \<lparr>buf = 1, shape = [3, 1]\<rparr> [1, 1] [2, 2] = (Inl ValueError, ?st')"
    by (simp add: vector_to_amplitudes_def np_reshape_def)
  have k: "kernel short_vector_externals [[Some 5]] (Model two_point_model) None None True
           = (Inl ValueError, ?st')"
    unfolding kernel_def
    by (simp add: short_vector_externals_def two_point_externals_def alloc_def two_point_counts v[unfolded One_nat_def]
        two_point_model_def[THEN arg_cong, of complex_orbitals, simplified])
  have run: "TDRHF_kernel short_vector_externals [[Some 5]] (TDRHF_init two_point_model)
             = (Inl ValueError, ?st', TDRHF_init two_point_model)"
    unfolding TDRHF_kernel_def by (simp add: TDRHF_init_def k)
  from TDRHF_kernel_failure_keeps_state[OF run]
  have "\<forall>a<length ([[Some 5]] :: store). ?st' ! a = [[Some 5]] ! a"
    and "length ([[Some 5]] :: store) \<le> length ?st'"
    by blast+
  then have "?st' ! 0 = [Some 5]" "1 \<le> length ?st'" by simp_all
  with run show ?thesis by blast
qed

theorem TDRHF_kernel_twice_witness:
  "\<exists>vals xy st1 self1.
      TDRHF_kernel two_point_externals [] (TDRHF_init two_point_model) = (Inr (vals, xy), st1, self1)
      \<and> td_eri self1 = Some (PhysERI8_init two_point_kconserv two_point_model)
      \<and> (\<exists>xy2 st2 self2. TDRHF_kernel two_point_externals st1 self1 = (Inr (vals, xy2), st2, self2)
            \<and> view_value st2 xy2 = view_value st1 xy
            \<and> td_eri self2 = td_eri self1)
      \<and> (\<exists>xy3 st3. kernel two_point_externals [] (Model two_point_model) None None False
                        = (Inr (vals, xy3, None), st3)
            \<and> view_value st3 xy3 = view_value st1 xy)"
proof -
  let ?self = "TDRHF_init two_point_model"
  let ?data = "[Some 3, Some 0, Some 0, Some 0, Some 1, Some 0, Some 0, Some 0] :: scalar list"
  obtain amps st1 where
    v: "vector_to_amplitudes [?data] \<lparr>buf = 0, shape = [8, 1]\<rparr> [1, 1] [2, 2] = (Inr amps, st1)"
    using vector_to_amplitudes_success[of "[1, 1]" 1 "[2, 2]" 2 "\<lparr>buf = 0, shape = [8, 1]\<rparr>" 1 "[?data]"]
    by simp
  have k: "kernel two_point_externals [] (Model two_point_model) None None True
           = (Inr ([Some 1], amps, Some (PhysERI8_init two_point_kconserv two_point_model)), st1)"
    unfolding kernel_def
    by (simp add: two_point_externals_def alloc_def two_point_counts v[unfolded One_nat_def]
        two_point_model_def[THEN arg_cong, of complex_orbitals, simplified])
  define self1 where "self1 = ?self\<lparr>td_e := Some [Some 1], td_xy := Some amps,
      td_eri := Some (PhysERI8_init two_point_kconserv two_point_model)\<rparr>"
  have run: "TDRHF_kernel two_point_externals [] ?self = (Inr ([Some 1], amps), st1, self1)"
    unfolding TDRHF_kernel_def self1_def by (simp add: TDRHF_init_def k)
  have none: "td_eri ?self = None" by (simp add: TDRHF_init_def)
  have p: "provider_of two_point_externals (Model two_point_model)
           = PhysERI8_init two_point_kconserv two_point_model"
    by (simp add: provider_of_def two_point_externals_def
        two_point_model_def[THEN arg_cong, of complex_orbitals, simplified])
  have f: "td_scf ?self = two_point_model" "td_driver ?self = None" "td_nroots ?self = None"
    by (simp_all add: TDRHF_init_def)
  from TDRHF_kernel_twice[OF none run, of two_point_kconserv "[]"]
  have a: "td_eri self1 = Some (PhysERI8_init two_point_kconserv two_point_model)"
    and b: "\<exists>xy2 st2 self2. TDRHF_kernel two_point_externals st1 self1 = (Inr ([Some 1], xy2), st2, self2)
            \<and> view_value st2 xy2 = view_value st1 amps
            \<and> td_eri self2 = td_eri self1"
    and c: "\<exists>xy3 st3. kernel two_point_externals [] (Model two_point_model) None None False
                        = (Inr ([Some 1], xy3, None), st3)
            \<and> view_value st3 xy3 = view_value st1 amps"
    unfolding p f by blast+
  show ?thesis
    by (rule exI[of _ "[Some 1]"], rule exI[of _ amps], rule exI[of _ st1], rule exI[of _ self1],
        intro conjI)
       (rule run a b c)+
qed

end
